theory Spec2Isabelle
  imports Complex_Main "HOL-Library.List_Lexorder" "HOL-Library.Code_Target_Nat"
begin

section \<open>Text\<close>

text \<open>
  A Python \<open>str\<close> is a sequence of Unicode code points; it is modelled as a list of
  natural numbers, one per code point, so that \<open>length\<close> is Python's \<open>len\<close> and the Hangul
  of the stop lists can be written down (as hexadecimal numerals).  \<open>asc\<close> embeds an ASCII
  literal.
\<close>

type_synonym ustr = "nat list"

definition asc :: "string \<Rightarrow> ustr" where
  "asc s = map of_char s"

text \<open>
  The tables of the Unicode database that the scripts reach through \<open>unicodedata\<close> and
  \<open>re\<close> are parameters of the model: \<open>nfkc\<close> is \<open>unicodedata.normalize("NFKC", _)\<close>,
  \<open>decimal\<close> is the class \<open>\d\<close> of a \<open>str\<close> pattern (the decimal digits of every
  script), and \<open>caseless p c\<close> says that the pattern character \<open>p\<close> matches the text
  character \<open>c\<close> under \<open>re.IGNORECASE\<close>.
\<close>

record unicode =
  nfkc :: "ustr \<Rightarrow> ustr"
  decimal :: "nat \<Rightarrow> bool"
  caseless :: "nat \<Rightarrow> nat \<Rightarrow> bool"

text \<open>
  The class \<open>\s\<close> of a \<open>str\<close> pattern, which is also what \<open>str.strip()\<close> removes and
  what \<open>str.isspace()\<close> accepts: a small table, written out.
\<close>

definition is_space :: "nat \<Rightarrow> bool" where
  "is_space c \<longleftrightarrow>
     (0x09 \<le> c \<and> c \<le> 0x0D) \<or> (0x1C \<le> c \<and> c \<le> 0x20) \<or> c = 0x85 \<or> c = 0xA0 \<or>
     c = 0x1680 \<or> (0x2000 \<le> c \<and> c \<le> 0x200A) \<or> c = 0x2028 \<or> c = 0x2029 \<or>
     c = 0x202F \<or> c = 0x205F \<or> c = 0x3000"

text \<open>
  The tables restricted to text that is made of ASCII characters and precomposed Hangul
  syllables (and of other characters that are their own NFKC form and have no case):
  there NFKC changes nothing, the decimal digits are \<open>0\<close> to \<open>9\<close>, and case folding is
  that of the ASCII letters.  The concrete runs below are all on such text.
\<close>

definition ascii_lower :: "nat \<Rightarrow> nat" where
  "ascii_lower c = (if 0x41 \<le> c \<and> c \<le> 0x5A then c + 0x20 else c)"

definition plain_unicode :: unicode where
  "plain_unicode =
     \<lparr> nfkc = (\<lambda>s. s),
       decimal = (\<lambda>c. 0x30 \<le> c \<and> c \<le> 0x39),
       caseless = (\<lambda>p c. ascii_lower p = ascii_lower c) \<rparr>"

subsection \<open>\<open>normalize_text\<close>, \<open>clean_spaces\<close>\<close>

definition normalize_text :: "unicode \<Rightarrow> ustr \<Rightarrow> ustr" where
  "normalize_text U s = (if s = [] then [] else nfkc U s)"

text \<open>\<open>re.sub(P+, r, s)\<close> for a character class \<open>P\<close>: every maximal run becomes \<open>r\<close>.\<close>

function sub_runs :: "(nat \<Rightarrow> bool) \<Rightarrow> nat \<Rightarrow> ustr \<Rightarrow> ustr" where
  "sub_runs P r [] = []"
| "sub_runs P r (c # cs) =
     (if P c then r # sub_runs P r (dropWhile P cs) else c # sub_runs P r cs)"
  by pat_completeness auto
termination
  by (relation "measure (\<lambda>(P, r, s). length s)")
     (auto simp: less_Suc_eq_le length_dropWhile_le)

definition strip :: "ustr \<Rightarrow> ustr" where
  "strip s = rev (dropWhile is_space (rev (dropWhile is_space s)))"

definition clean_spaces :: "ustr \<Rightarrow> ustr" where
  "clean_spaces s = strip (sub_runs is_space 0x20 s)"

subsection \<open>The three patterns of the title normalizer\<close>

text \<open>
  \<open>RE_PREFIX_NUM = ^\s*\d+\s*[.\)]\s*\<close>, substituted by the empty string.  The pattern
  is anchored, so it matches at most once, at the start.  Whitespace, digits and the two
  closing marks are disjoint classes, so the greedy run is the only way to match.
\<close>

definition RE_PREFIX_NUM_sub :: "unicode \<Rightarrow> ustr \<Rightarrow> ustr" where
  "RE_PREFIX_NUM_sub U s =
     (let s1 = dropWhile is_space s;
          ds = takeWhile (decimal U) s1;
          s2 = dropWhile is_space (dropWhile (decimal U) s1)
      in case s2 of
           [] \<Rightarrow> s
         | c # s3 \<Rightarrow>
             if ds \<noteq> [] \<and> (c = 0x2E \<or> c = 0x29) then dropWhile is_space s3 else s)"

text \<open>
  \<open>RE_PARENS = \([^()]*\)\<close>, substituted by the empty string.  \<open>paren_close\<close> reads
  \<open>[^()]*\)\<close> after an opening parenthesis and returns the text after the match.
\<close>

fun paren_close :: "ustr \<Rightarrow> ustr option" where
  "paren_close [] = None"
| "paren_close (c # cs) =
     (if c = 0x29 then Some cs else if c = 0x28 then None else paren_close cs)"

lemma paren_close_length: "paren_close cs = Some r \<Longrightarrow> length r < length cs"
  by (induction cs) (auto split: if_splits)

function RE_PARENS_sub :: "ustr \<Rightarrow> ustr" where
  "RE_PARENS_sub [] = []"
| "RE_PARENS_sub (c # cs) =
     (if c = 0x28 then
        (case paren_close cs of
           Some r \<Rightarrow> RE_PARENS_sub r
         | None \<Rightarrow> c # RE_PARENS_sub cs)
      else c # RE_PARENS_sub cs)"
  by pat_completeness auto
termination
  by (relation "measure length") (auto dest: paren_close_length)

text \<open>\<open>RE_DANGLING_MARKS\<close>: middle dot, bullet, hyphen, en dash, em dash; runs become a space.\<close>

definition is_mark :: "nat \<Rightarrow> bool" where
  "is_mark c \<longleftrightarrow> c = 0xB7 \<or> c = 0x2022 \<or> c = 0x2D \<or> c = 0x2013 \<or> c = 0x2014"

definition RE_DANGLING_MARKS_sub :: "ustr \<Rightarrow> ustr" where
  "RE_DANGLING_MARKS_sub s = sub_runs is_mark 0x20 s"

subsection \<open>\<open>str.replace(sp, "")\<close>\<close>

text \<open>\<open>startswith_rest p s\<close> is the text after \<open>p\<close> when \<open>s\<close> starts with \<open>p\<close>.\<close>

fun startswith_rest :: "ustr \<Rightarrow> ustr \<Rightarrow> ustr option" where
  "startswith_rest [] s = Some s"
| "startswith_rest (p # ps) [] = None"
| "startswith_rest (p # ps) (c # cs) = (if p = c then startswith_rest ps cs else None)"

lemma startswith_rest_length:
  "startswith_rest p s = Some r \<Longrightarrow> length r + length p = length s"
  by (induction p s rule: startswith_rest.induct) (auto split: if_splits)

lemma startswith_rest_shorter:
  "startswith_rest p s = Some r \<Longrightarrow> p \<noteq> [] \<Longrightarrow> length r < length s"
  using startswith_rest_length [of p s r] by (cases p) auto

text \<open>Occurrences are removed from left to right, without overlap; an empty \<open>sp\<close> changes nothing.\<close>

function str_remove :: "ustr \<Rightarrow> ustr \<Rightarrow> ustr" where
  "str_remove sp [] = []"
| "str_remove sp (c # cs) =
     (if sp = [] then c # cs
      else case startswith_rest sp (c # cs) of
             Some r \<Rightarrow> str_remove sp r
           | None \<Rightarrow> c # str_remove sp cs)"
  by pat_completeness auto
termination
  by (relation "measure (\<lambda>(sp, s). length s)")
     (auto dest: startswith_rest_shorter)

subsection \<open>\<open>normalize_bill_title\<close>\<close>

definition STOP_PHRASES :: "ustr list" where
  "STOP_PHRASES =
    [[0xC77C, 0xBD80, 0xAC1C, 0xC815, 0xBC95, 0xB960, 0xC548],
     [0xBC95, 0xB960, 0xC548],
     [0xB300, 0xC548],
     [0xC815, 0xBD80, 0x20, 0xC81C, 0xCD9C],
     [0xC758, 0xC6D0, 0x20, 0xB300, 0xD45C, 0xBC1C, 0xC758],
     [0xB300, 0xD45C, 0xBC1C, 0xC758],
     [0xC704, 0xC6D0, 0xC7A5, 0x20, 0xC81C, 0xCD9C],
     [0xC758, 0xC548, 0xBC88, 0xD638],
     [0xC815, 0xBD80, 0xC81C, 0xCD9C],
     [0xC81C, 0xCD9C],
     [0xC18C, 0xC704, 0xC790, 0xB8CC],
     [0xC548, 0xAC74]]"

definition normalize_bill_title :: "unicode \<Rightarrow> ustr \<Rightarrow> ustr" where
  "normalize_bill_title U raw =
     (if raw = [] then []
      else
        let s = normalize_text U raw;
            s = map (\<lambda>c. if c = 0x0A then 0x20 else c) s;
            s = RE_PREFIX_NUM_sub U s;
            s = RE_PARENS_sub s;
            s = RE_DANGLING_MARKS_sub s;
            s = clean_spaces s;
            s = foldl (\<lambda>s sp. str_remove sp s) s STOP_PHRASES
        in clean_spaces s)"

section \<open>Keywords\<close>

definition BILL_STOP_TOKENS :: "ustr list" where
  "BILL_STOP_TOKENS =
    [[0xC77C, 0xBD80, 0xAC1C, 0xC815], [0xAC1C, 0xC815], [0xBC95, 0xB960], [0xBC95],
     [0xB300, 0xCC45], [0xC5D0], [0xAD00, 0xD55C], [0xBC0F], [0xC758], [0xB4F1],
     [0xAD00, 0xB828], [0xC0AC, 0xD56D], [0xC81C, 0xC815], [0xC77C, 0xAD04],
     [0xCD94, 0xC9C4], [0xBCF4, 0xACE0], [0xC790, 0xB8CC], [0xC18C, 0xC704],
     [0xC704, 0xC6D0, 0xD68C], [0xC704, 0xC6D0], [0xC815, 0xBD80], [0xC81C, 0xCD9C],
     [0xC704, 0xC6D0, 0xC7A5], [0xB300, 0xD45C, 0xBC1C, 0xC758], [0xB300, 0xC548],
     [0xC758, 0xC548], [0xBC88, 0xD638], [0xAC80, 0xD1A0], [0xC548], [0xAC1C, 0xC694],
     [0xAE30, 0xD0C0]]"

text \<open>
  The token class of \<open>extract_keywords_from_bill\<close>: Hangul syllables \<open>U+AC00\<close> to
  \<open>U+D7A3\<close>, \<open>A-Z\<close>, \<open>a-z\<close>, \<open>0-9\<close>.
\<close>

definition is_token_char :: "nat \<Rightarrow> bool" where
  "is_token_char c \<longleftrightarrow>
     (0xAC00 \<le> c \<and> c \<le> 0xD7A3) \<or> (0x41 \<le> c \<and> c \<le> 0x5A) \<or>
     (0x61 \<le> c \<and> c \<le> 0x7A) \<or> (0x30 \<le> c \<and> c \<le> 0x39)"

text \<open>\<open>re.findall(P+, t)\<close> for a character class \<open>P\<close>: the maximal runs, in order.\<close>

function findall_runs :: "(nat \<Rightarrow> bool) \<Rightarrow> ustr \<Rightarrow> ustr list" where
  "findall_runs P [] = []"
| "findall_runs P (c # cs) =
     (if P c then (c # takeWhile P cs) # findall_runs P (dropWhile P cs)
      else findall_runs P cs)"
  by pat_completeness auto
termination
  by (relation "measure (\<lambda>(P, s). length s)")
     (auto simp: less_Suc_eq_le length_dropWhile_le)

text \<open>
  \<open>collections.Counter\<close>: a dictionary of counts, which keeps its keys in the order of
  their first insertion.  \<open>most_common(n)\<close> is the first \<open>n\<close> items of the stable sort by
  descending count (and no item when \<open>n\<close> is not positive).
\<close>

fun counter_add :: "ustr \<Rightarrow> (ustr \<times> nat) list \<Rightarrow> (ustr \<times> nat) list" where
  "counter_add w [] = [(w, 1)]"
| "counter_add w ((k, n) # r) =
     (if k = w then (k, n + 1) # r else (k, n) # counter_add w r)"

definition Counter :: "ustr list \<Rightarrow> (ustr \<times> nat) list" where
  "Counter ws = foldl (\<lambda>cnt w. counter_add w cnt) [] ws"

definition most_common :: "(ustr \<times> nat) list \<Rightarrow> int \<Rightarrow> (ustr \<times> nat) list" where
  "most_common cnt n = take (nat n) (sort_key (\<lambda>(w, c). - int c) cnt)"

definition extract_keywords_from_bill :: "unicode \<Rightarrow> ustr \<Rightarrow> int \<Rightarrow> ustr list" where
  "extract_keywords_from_bill U title topk =
     (let t = normalize_text U title;
          tokens = findall_runs is_token_char t;
          kept = filter (\<lambda>tok. \<not> length tok \<le> 1 \<and> tok \<notin> set BILL_STOP_TOKENS) tokens;
          cnt = Counter kept
      in map fst (most_common cnt topk))"

section \<open>Patterns and scores\<close>

text \<open>
  \<open>spaced_pat(word)\<close> compiles the characters of \<open>word\<close>, each escaped, joined by
  \<open>\s*\<close>, with \<open>IGNORECASE\<close> and \<open>DOTALL\<close>.  The compiled pattern is represented by
  its word.
\<close>

datatype re_pattern = SpacedPat ustr

definition spaced_pat :: "ustr \<Rightarrow> re_pattern" where
  "spaced_pat word = SpacedPat word"

definition build_keyword_patterns :: "ustr list \<Rightarrow> re_pattern list" where
  "build_keyword_patterns words = map spaced_pat (filter (\<lambda>w. w \<noteq> []) words)"

text \<open>
  Matching at a position, as the backtracking engine does.  \<open>greedy_ws k t\<close> is \<open>\s*\<close>
  followed by the rest \<open>k\<close> of the pattern: the longest run of whitespace first, then
  shorter ones.  The result is the text after the first match found.
\<close>

fun greedy_ws :: "(ustr \<Rightarrow> ustr option) \<Rightarrow> ustr \<Rightarrow> ustr option" where
  "greedy_ws k [] = k []"
| "greedy_ws k (x # t) =
     (if is_space x then
        (case greedy_ws k t of Some r \<Rightarrow> Some r | None \<Rightarrow> k (x # t))
      else k (x # t))"

primrec match_chars :: "unicode \<Rightarrow> ustr \<Rightarrow> ustr \<Rightarrow> ustr option" where
  "match_chars U [] t = Some t"
| "match_chars U (c # cs) t =
     (case t of
        [] \<Rightarrow> None
      | x # t' \<Rightarrow>
          if caseless U c x then
            (if cs = [] then Some t' else greedy_ws (match_chars U cs) t')
          else None)"

lemma greedy_ws_length:
  assumes "\<And>t r. k t = Some r \<Longrightarrow> length r \<le> length t"
  shows "greedy_ws k t = Some r \<Longrightarrow> length r \<le> length t"
proof (induction t)
  case Nil
  then show ?case using assms [of "[]" r] by simp
next
  case (Cons x t)
  show ?case
  proof (cases "is_space x \<and> greedy_ws k t \<noteq> None")
    case True
    with Cons show ?thesis by auto
  next
    case False
    with Cons.prems have "k (x # t) = Some r"
      by (auto split: if_splits option.splits)
    then show ?thesis by (rule assms)
  qed
qed

lemma match_chars_length:
  "match_chars U w t = Some r \<Longrightarrow> length r + (if w = [] then 0 else 1) \<le> length t"
proof (induction w arbitrary: t r)
  case Nil
  then show ?case by simp
next
  case (Cons c cs)
  from Cons.prems obtain x t' where t: "t = x # t'" and cx: "caseless U c x"
    by (cases t) (auto split: if_splits)
  show ?case
  proof (cases "cs = []")
    case True
    with Cons.prems t cx show ?thesis by simp
  next
    case False
    with Cons.prems t cx have g: "greedy_ws (match_chars U cs) t' = Some r" by simp
    have "length r \<le> length t'"
    proof (rule greedy_ws_length [OF _ g])
      fix u v
      assume "match_chars U cs u = Some v"
      from Cons.IH [OF this] show "length v \<le> length u" by simp
    qed
    with t show ?thesis by simp
  qed
qed

text \<open>
  \<open>len(list(pat.finditer(T)))\<close>: the matches are found from left to right and do not
  overlap; the search resumes where the last match ended.  (The empty pattern, which
  \<open>build_keyword_patterns\<close> never makes, matches once at every position.)
\<close>

function finditer_count :: "unicode \<Rightarrow> re_pattern \<Rightarrow> ustr \<Rightarrow> nat" where
  "finditer_count U (SpacedPat w) [] = (if w = [] then 1 else 0)"
| "finditer_count U (SpacedPat w) (x # t) =
     (if w = [] then 2 + length t
      else case match_chars U w (x # t) of
             Some r \<Rightarrow> 1 + finditer_count U (SpacedPat w) r
           | None \<Rightarrow> finditer_count U (SpacedPat w) t)"
  by pat_completeness auto
termination
  by (relation "measure (\<lambda>(U, p, t). length t)")
     (auto dest: match_chars_length split: if_splits)

text \<open>A registry entry: \<open>bill_map[canonical]\<close>.  \<open>raw_variants\<close> is a Python set, kept
  as a list without duplicates.\<close>

record bill_entry =
  raw_variants :: "ustr list"
  bill_keywords :: "ustr list"
  patterns :: "re_pattern list"

definition enumerate :: "'a list \<Rightarrow> (nat \<times> 'a) list" where
  "enumerate xs = zip [0 ..< length xs] xs"

definition score_text_for_bill :: "unicode \<Rightarrow> ustr \<Rightarrow> bill_entry \<Rightarrow> int \<times> int" where
  "score_text_for_bill U text bill_entry =
     (if text = [] then (0, 0)
      else
        let T = normalize_text U text;
            pats = patterns bill_entry
        in foldl (\<lambda>(hard, soft) (i, pat).
                    let matches = int (finditer_count U pat T)
                    in if matches = 0 then (hard, soft)
                       else if i = 0 then (hard + matches, soft)
                       else (hard, soft + matches))
             (0, 0) (enumerate pats))"

section \<open>Utterance records\<close>

text \<open>
  A transcript record is a JSON object.  A key of it is absent, or holds \<open>null\<close>, or
  holds a value; \<open>dict_get\<close> is \<open>rec.get(key)\<close>, which is \<open>None\<close> in the first two
  cases, and \<open>or_empty\<close> is \<open>x or ""\<close>.
\<close>

datatype 'a field = Absent | Null | Val 'a

fun dict_get :: "'a field \<Rightarrow> 'a option" where
  "dict_get (Val v) = Some v"
| "dict_get _ = None"

fun or_empty :: "ustr option \<Rightarrow> ustr" where
  "or_empty None = []"
| "or_empty (Some s) = s"

record speech =
  speech_id :: "int field"
  member_name :: "ustr field"
  bills :: "ustr field"
  speech_text :: "ustr field"

text \<open>Truth value of a string or \<open>None\<close> in a condition.\<close>

fun truthy :: "ustr option \<Rightarrow> bool" where
  "truthy None = False"
| "truthy (Some s) = (s \<noteq> [])"

section \<open>The registry\<close>

text \<open>\<open>re.split(P+, s)\<close> for a character class \<open>P\<close>.\<close>

function re_split_runs :: "(nat \<Rightarrow> bool) \<Rightarrow> ustr \<Rightarrow> ustr list" where
  "re_split_runs P s =
     (case dropWhile (\<lambda>c. \<not> P c) s of
        [] \<Rightarrow> [s]
      | c # rest \<Rightarrow> takeWhile (\<lambda>c. \<not> P c) s # re_split_runs P (dropWhile P rest))"
  by pat_completeness auto
termination
proof (relation "measure (\<lambda>(P, s). length s)")
  show "wf (measure (\<lambda>(P, s). length s))" by simp
next
  fix P :: "nat \<Rightarrow> bool" and s :: ustr and c rest
  assume "dropWhile (\<lambda>c. \<not> P c) s = c # rest"
  then have "Suc (length rest) \<le> length s"
    using length_dropWhile_le [of "\<lambda>c. \<not> P c" s] by simp
  moreover have "length (dropWhile P rest) \<le> length rest"
    by (rule length_dropWhile_le)
  ultimately show "((P, dropWhile P rest), (P, s)) \<in> measure (\<lambda>(P, s). length s)"
    by simp
qed

declare re_split_runs.simps [simp del]

definition is_sep :: "nat \<Rightarrow> bool" where
  "is_sep c \<longleftrightarrow> c = 0x0A \<or> c = 0x3B"

definition split_raw_bills_field :: "unicode \<Rightarrow> ustr option \<Rightarrow> ustr list" where
  "split_raw_bills_field U bills_field =
     (if \<not> truthy bills_field then []
      else
        let s = normalize_text U (or_empty bills_field);
            parts = re_split_runs is_sep s
        in map clean_spaces (filter (\<lambda>p. clean_spaces p \<noteq> []) parts))"

text \<open>
  \<open>canonical_set\<close> is a dictionary from canonical titles to their sets of raw variants;
  it is kept as an association list in insertion order, which is the order Python
  iterates a dictionary in.  \<open>add_variant canon raw\<close> is the body of the loop:
  create the key if it is new, then add \<open>raw\<close> to its set.
\<close>

fun add_variant :: "ustr \<Rightarrow> ustr \<Rightarrow> (ustr \<times> ustr list) list \<Rightarrow> (ustr \<times> ustr list) list" where
  "add_variant canon raw [] = [(canon, [raw])]"
| "add_variant canon raw ((k, vs) # r) =
     (if k = canon then (k, List.insert raw vs) # r
      else (k, vs) # add_variant canon raw r)"

record bill_summary =
  canonical :: ustr
  summary_raw_variants :: "ustr list"
  summary_keywords :: "ustr list"

type_synonym bill_map = "(ustr \<times> bill_entry) list"

definition canonical_set_of :: "unicode \<Rightarrow> ustr list \<Rightarrow> (ustr \<times> ustr list) list" where
  "canonical_set_of U bill_variants =
     foldl (\<lambda>canonical_set raw.
              let canon = normalize_bill_title U raw
              in if canon = [] then canonical_set
                 else add_variant canon raw canonical_set)
       [] bill_variants"

definition collect_bills_and_keywords ::
  "unicode \<Rightarrow> speech list \<Rightarrow> bill_summary list \<times> bill_map" where
  "collect_bills_and_keywords U speeches =
     (let bill_variants =
            concat (map (\<lambda>rec. split_raw_bills_field U (dict_get (bills rec))) speeches);
          canonical_set = canonical_set_of U bill_variants;
          unique_bills =
            map (\<lambda>(canon, vs).
                   \<lparr> canonical = canon,
                     summary_raw_variants = sort vs,
                     summary_keywords = extract_keywords_from_bill U canon 8 \<rparr>)
              canonical_set;
          bill_map =
            map (\<lambda>(canon, vs).
                   let kws = extract_keywords_from_bill U canon 8;
                       pats = build_keyword_patterns (canon # kws)
                   in (canon, \<lparr> raw_variants = vs, bill_keywords = kws, patterns = pats \<rparr>))
              canonical_set
      in (unique_bills, bill_map))"

section \<open>The resolver\<close>

text \<open>Comparison of score tuples, \<open>(h, s) > best_score\<close>, is lexicographic.\<close>

definition tuple_gt :: "int \<times> int \<Rightarrow> int \<times> int \<Rightarrow> bool" where
  "tuple_gt a b \<longleftrightarrow> fst a > fst b \<or> (fst a = fst b \<and> snd a > snd b)"

text \<open>\<open>str(n)\<close> for an integer, as an f-string prints it.\<close>

fun dec_nat :: "nat \<Rightarrow> ustr" where
  "dec_nat n = (if n < 10 then [0x30 + n] else dec_nat (n div 10) @ [0x30 + n mod 10])"

declare dec_nat.simps [simp del]

definition str_int :: "int \<Rightarrow> ustr" where
  "str_int i = (if i < 0 then 0x2D # dec_nat (nat (- i)) else dec_nat (nat i))"

text \<open>
  The loop that both tiers run: over a list of canonical titles with their entries, keep
  the first title whose score is strictly greater than the best so far, from \<open>(-1, -1)\<close>.
\<close>

definition best_by_score ::
  "unicode \<Rightarrow> ustr \<Rightarrow> (ustr \<times> bill_entry) list \<Rightarrow> ustr option \<times> (int \<times> int)" where
  "best_by_score U text entries =
     foldl (\<lambda>(best, best_score) (c, e).
              let hs = score_text_for_bill U text e
              in if tuple_gt hs best_score then (Some c, hs) else (best, best_score))
       (None, (- 1, - 1)) entries"

definition choose_by_score :: "unicode \<Rightarrow> bill_map \<Rightarrow> ustr \<Rightarrow> ustr option \<times> real \<times> ustr" where
  "choose_by_score U bill_map text =
     (let (best, best_score) = best_by_score U text bill_map
      in case best of
           None \<Rightarrow> (None, 0.0, asc ''no-match'')
         | Some b \<Rightarrow>
             let (h, s) = best_score;
                 conf = (if h > 0 then 0.9 else if s \<ge> 2 then 0.6 else if s = 1 then 0.4 else 0.0);
                 reason = asc ''hard='' @ str_int h @ asc '', soft='' @ str_int s
             in (Some b, conf, reason))"

text \<open>
  \<open>round(conf, 2)\<close>.  Every confidence the resolver computes is one of seven decimal
  constants with at most two places, which rounding returns as they are; they are
  modelled by the decimals themselves.
\<close>

definition round2 :: "real \<Rightarrow> real" where
  "round2 x = of_int \<lfloor>x * 100 + 1 / 2\<rfloor> / 100"

record resolution_state =
  last_agenda_canon :: "ustr option"
  last_by_speaker :: "ustr option \<rightharpoonup> ustr"

record labeled = speech +
  bill_assigned :: "ustr option"
  bill_confidence :: real
  bill_reason :: ustr

definition initial_state :: resolution_state where
  "initial_state = \<lparr> last_agenda_canon = None, last_by_speaker = Map.empty \<rparr>"

text \<open>
  The body of the loop of \<open>assign_bills_to_speeches\<close>, step by step as the source numbers
  them; a step takes and returns the running \<open>(picked, conf, why)\<close>.

  Step 1: the candidates named by the record's own bill field, normalized, empty ones
  dropped, and only those that are keys of the registry.
\<close>

definition field_candidates :: "unicode \<Rightarrow> bill_map \<Rightarrow> speech \<Rightarrow> ustr list" where
  "field_candidates U bill_map rec =
     (let raw_bills = split_raw_bills_field U (Some (or_empty (dict_get (bills rec))));
          candidates = filter (\<lambda>c. c \<noteq> []) (map (normalize_bill_title U) raw_bills)
      in filter (\<lambda>c. c \<in> fst ` set bill_map) candidates)"

text \<open>Each candidate is a key of the registry, so the lookup \<open>bill_map[c]\<close> finds its entry.\<close>

definition candidate_entries :: "bill_map \<Rightarrow> ustr list \<Rightarrow> (ustr \<times> bill_entry) list" where
  "candidate_entries bill_map candidates =
     concat (map (\<lambda>c. case map_of bill_map c of None \<Rightarrow> [] | Some e \<Rightarrow> [(c, e)]) candidates)"

text \<open>Step 2: the text score first.\<close>

definition step2_text_score ::
  "unicode \<Rightarrow> bill_map \<Rightarrow> ustr \<Rightarrow> ustr option \<times> real \<times> ustr" where
  "step2_text_score U bill_map text =
     (let (t_pick, t_conf, t_reason) = choose_by_score U bill_map text
      in if truthy t_pick
         then (t_pick, t_conf, asc ''text-match('' @ t_reason @ asc '')'')
         else (None, 0.0, []))"

text \<open>Step 3: with candidates and a confidence below 0.6, the best candidate by score.\<close>

definition step3_candidates ::
  "unicode \<Rightarrow> bill_map \<Rightarrow> ustr \<Rightarrow> ustr list \<Rightarrow> ustr option \<times> real \<times> ustr
     \<Rightarrow> ustr option \<times> real \<times> ustr" where
  "step3_candidates U bill_map text candidates pcw =
     (let (picked, conf, why) = pcw
      in if candidates \<noteq> [] \<and> conf < 0.6 then
           let (best_cand, best_cscore) =
                 best_by_score U text (candidate_entries bill_map candidates)
           in if truthy best_cand then
                (best_cand,
                 max conf (if best_cscore = (0, 0) then 0.6
                           else if fst best_cscore > 0 then 0.9 else 0.7),
                 asc ''bills-field-candidate + text('' @ str_int (fst best_cscore)
                   @ asc '','' @ str_int (snd best_cscore) @ asc '')'')
              else (picked, conf, why)
         else (picked, conf, why))"

text \<open>Step 4: still nothing picked, the bill of the agenda so far.\<close>

definition step4_agenda_flow ::
  "resolution_state \<Rightarrow> ustr option \<times> real \<times> ustr \<Rightarrow> ustr option \<times> real \<times> ustr" where
  "step4_agenda_flow st pcw =
     (let (picked, conf, why) = pcw
      in if \<not> truthy picked \<and> truthy (last_agenda_canon st)
         then (last_agenda_canon st, 0.5, asc ''agenda-flow'')
         else (picked, conf, why))"

text \<open>Step 5: still nothing, the last bill of the same speaker.\<close>

definition step5_speaker_history ::
  "resolution_state \<Rightarrow> ustr option \<Rightarrow> ustr option \<times> real \<times> ustr
     \<Rightarrow> ustr option \<times> real \<times> ustr" where
  "step5_speaker_history st spk pcw =
     (let (picked, conf, why) = pcw
      in if \<not> truthy picked \<and> spk \<in> dom (last_by_speaker st)
         then (last_by_speaker st spk, 0.45, asc ''speaker-history'')
         else (picked, conf, why))"

text \<open>Step 6: the state is updated when something was picked.\<close>

definition step6_update ::
  "resolution_state \<Rightarrow> ustr option \<Rightarrow> ustr option \<Rightarrow> resolution_state" where
  "step6_update st spk picked =
     (if truthy picked
      then \<lparr> last_agenda_canon = picked,
             last_by_speaker = (last_by_speaker st)(spk := picked) \<rparr>
      else st)"

definition resolve_pick ::
  "unicode \<Rightarrow> bill_map \<Rightarrow> resolution_state \<Rightarrow> speech \<Rightarrow> ustr option \<times> real \<times> ustr" where
  "resolve_pick U bill_map st rec =
     (let text = or_empty (dict_get (speech_text rec));
          candidates = field_candidates U bill_map rec;
          pcw = step2_text_score U bill_map text;
          pcw = step3_candidates U bill_map text candidates pcw;
          pcw = step4_agenda_flow st pcw;
          spk = dict_get (member_name rec)
      in step5_speaker_history st spk pcw)"

definition label_speech ::
  "unicode \<Rightarrow> bill_map \<Rightarrow> resolution_state \<Rightarrow> speech \<Rightarrow> resolution_state \<times> labeled" where
  "label_speech U bill_map st rec =
     (let (picked, conf, why) = resolve_pick U bill_map st rec;
          spk = dict_get (member_name rec);
          st' = step6_update st spk picked
      in (st',
          \<lparr> speech_id = speech_id rec, member_name = member_name rec, bills = bills rec,
            speech_text = speech_text rec,
            bill_assigned = picked, bill_confidence = round2 conf, bill_reason = why \<rparr>))"

fun assign_loop :: "unicode \<Rightarrow> bill_map \<Rightarrow> resolution_state \<Rightarrow> speech list \<Rightarrow> labeled list" where
  "assign_loop U bill_map st [] = []"
| "assign_loop U bill_map st (rec # recs) =
     (let (st', newrec) = label_speech U bill_map st rec
      in newrec # assign_loop U bill_map st' recs)"

definition assign_bills_to_speeches :: "unicode \<Rightarrow> speech list \<Rightarrow> bill_map \<Rightarrow> labeled list" where
  "assign_bills_to_speeches U speeches bill_map = assign_loop U bill_map initial_state speeches"


section \<open>Disambiguation of multi-bill fields (\<open>process_bills.py\<close>)\<close>

text \<open>
  \<open>get_bill_name\<close> searches \<open>^\d+\.\s*(.*?)(?:\(|$)\<close> in the stripped string, without
  \<open>MULTILINE\<close> or \<open>DOTALL\<close>.  Digits, the full stop and whitespace are disjoint classes,
  so the greedy runs are the only way to match; the lazy group ends before the first
  opening parenthesis, or at the end of the string (or before a final newline), and cannot
  cross a newline.  The result is the group, if the search succeeds.
\<close>

definition RE_BILL_NAME_search :: "unicode \<Rightarrow> ustr \<Rightarrow> ustr option" where
  "RE_BILL_NAME_search U s =
     (let ds = takeWhile (decimal U) s
      in case dropWhile (decimal U) s of
           [] \<Rightarrow> None
         | c # s2 \<Rightarrow>
             if ds = [] \<or> c \<noteq> 0x2E then None
             else
               let s3 = dropWhile is_space s2;
                   g = takeWhile (\<lambda>c. c \<noteq> 0x28 \<and> c \<noteq> 0x0A) s3;
                   rest = dropWhile (\<lambda>c. c \<noteq> 0x28 \<and> c \<noteq> 0x0A) s3
               in if rest = [] \<or> hd rest = 0x28 \<or> rest = [0x0A] then Some g else None)"

definition get_bill_name :: "unicode \<Rightarrow> ustr \<Rightarrow> ustr" where
  "get_bill_name U bill_string =
     (case RE_BILL_NAME_search U (strip bill_string) of
        Some g \<Rightarrow> strip g
      | None \<Rightarrow> strip bill_string)"

text \<open>\<open>sub in s\<close> on strings: \<open>sub\<close> occurs in \<open>s\<close> as a contiguous part.\<close>

fun str_in :: "ustr \<Rightarrow> ustr \<Rightarrow> bool" where
  "str_in sub [] = (sub = [])"
| "str_in sub (c # cs) = (startswith_rest sub (c # cs) \<noteq> None \<or> str_in sub cs)"

text \<open>\<open>s.split(d)\<close> for a single character \<open>d\<close>.\<close>

fun split_on :: "nat \<Rightarrow> ustr \<Rightarrow> ustr list" where
  "split_on d [] = [[]]"
| "split_on d (c # cs) =
     (if c = d then [] # split_on d cs
      else case split_on d cs of
             w # ws \<Rightarrow> (c # w) # ws
           | [] \<Rightarrow> [[c]])"

text \<open>
  The chat completion is the one call out of the program.  What comes back is either the
  text of the first choice, or an exception: of the call itself, or of reading the response
  (no choice, no content).  Both happen inside the \<open>try\<close> of \<open>find_most_relevant_bill\<close>.
\<close>

datatype llm_outcome = Reply ustr | Failure

text \<open>The records that \<open>logging\<close> receives, by the statement that writes them.\<close>

datatype level = INFO | WARNING | ERROR

datatype log_event =
    Bills_found nat nat "int option" nat
  | Names_all_equal
  | Names_differ
  | Reply_not_listed ustr
  | Api_call_error
  | Llm_selected ustr
  | Llm_failed "int option"

fun level_of :: "log_event \<Rightarrow> level" where
  "level_of (Bills_found i n sid k) = INFO"
| "level_of Names_all_equal = INFO"
| "level_of Names_differ = WARNING"
| "level_of (Reply_not_listed chosen) = WARNING"
| "level_of Api_call_error = ERROR"
| "level_of (Llm_selected b) = INFO"
| "level_of (Llm_failed sid) = WARNING"

text \<open>
  \<open>find_most_relevant_bill\<close>: the first bill of the list that equals the stripped reply,
  contains it or is contained in it; if there is none, a warning and the first bill of
  the list (on an empty list \<open>bill_list[0]\<close> raises, which the \<open>except\<close> turns into
  \<open>None\<close>).  The text of the speech only goes into the prompt.
\<close>

definition find_most_relevant_bill ::
  "llm_outcome \<Rightarrow> ustr field \<Rightarrow> ustr list \<Rightarrow> ustr option \<times> log_event list" where
  "find_most_relevant_bill outcome spoken bill_list =
     (case outcome of
        Failure \<Rightarrow> (None, [Api_call_error])
      | Reply content \<Rightarrow>
          let chosen_bill = strip content
          in case find (\<lambda>original_bill. chosen_bill = original_bill \<or>
                          str_in chosen_bill original_bill \<or>
                          str_in original_bill chosen_bill) bill_list of
               Some original_bill \<Rightarrow> (Some original_bill, [])
             | None \<Rightarrow>
                 (case bill_list of
                    [] \<Rightarrow> (None, [Reply_not_listed chosen_bill, Api_call_error])
                  | b # _ \<Rightarrow> (Some b, [Reply_not_listed chosen_bill])))"

text \<open>
  The body of the loop of \<open>process_speeches\<close>, for the record at index \<open>i\<close> of \<open>total_speeches\<close>;
  \<open>outcome\<close> is what the chat completion returns if this record gets to call it.  A
  \<open>bills\<close> that is \<open>null\<close> has no \<open>split\<close>, and a record without \<open>speech_id\<close> cannot be
  logged: both exceptions leave \<open>process_speeches\<close>.
\<close>

datatype error = AttributeError | KeyError

definition process_speech ::
  "unicode \<Rightarrow> nat \<Rightarrow> nat \<Rightarrow> llm_outcome \<Rightarrow> speech \<Rightarrow> error + speech \<times> log_event list" where
  "process_speech U total_speeches i outcome speech =
     (case bills speech of
        Null \<Rightarrow> Inl AttributeError
      | b \<Rightarrow>
          let bill_string = or_empty (dict_get b);
              bill_list = map strip (filter (\<lambda>b. strip b \<noteq> []) (split_on 0x0A bill_string))
          in if length bill_list \<le> 1 then Inr (speech, [])
             else
               case speech_id speech of
                 Absent \<Rightarrow> Inl KeyError
               | sid \<Rightarrow>
                   let found = Bills_found (i + 1) total_speeches (dict_get sid) (length bill_list);
                       bill_names = map (get_bill_name U) bill_list
                   in if card (set bill_names) = 1
                      then Inr (speech, [found, Names_all_equal])
                      else
                        let (most_relevant_bill, logged) =
                              find_most_relevant_bill outcome (speech_text speech) bill_list
                        in if truthy most_relevant_bill
                           then Inr (speech \<lparr> bills := Val (the most_relevant_bill) \<rparr>,
                                     [found, Names_differ] @ logged @
                                     [Llm_selected (the most_relevant_bill)])
                           else Inr (speech,
                                     [found, Names_differ] @ logged @ [Llm_failed (dict_get sid)]))"

text \<open>
  The loop of \<open>process_speeches\<close> over the records that were read, in order; \<open>llm i\<close> is
  the outcome of the chat completion for the record at index \<open>i\<close>.  The result is the list
  that is written out, with the log; reading and writing the files are left out.
\<close>

fun process_loop ::
  "unicode \<Rightarrow> (nat \<Rightarrow> llm_outcome) \<Rightarrow> nat \<Rightarrow> nat \<Rightarrow> speech list \<Rightarrow>
     error + speech list \<times> log_event list" where
  "process_loop U llm total_speeches i [] = Inr ([], [])"
| "process_loop U llm total_speeches i (speech # rest) =
     (case process_speech U total_speeches i (llm i) speech of
        Inl e \<Rightarrow> Inl e
      | Inr (new_speech, logged) \<Rightarrow>
          (case process_loop U llm total_speeches (Suc i) rest of
             Inl e \<Rightarrow> Inl e
           | Inr (processed_speeches, logs) \<Rightarrow>
               Inr (new_speech # processed_speeches, logged @ logs)))"

definition process_speeches ::
  "unicode \<Rightarrow> (nat \<Rightarrow> llm_outcome) \<Rightarrow> speech list \<Rightarrow> error + speech list \<times> log_event list" where
  "process_speeches U llm speeches = process_loop U llm (length speeches) 0 speeches"

section \<open>Auxiliary notions for the proofs\<close>

text \<open>One iteration of the loop of \<open>best_by_score\<close>.\<close>

definition best_step :: "unicode \<Rightarrow> ustr \<Rightarrow> ustr option \<times> (int \<times> int) \<Rightarrow> ustr \<times> bill_entry \<Rightarrow> ustr option \<times> (int \<times> int)" where
  "best_step U text acc ce = (let hs = score_text_for_bill U text (snd ce)
              in if tuple_gt hs (snd acc) then (Some (fst ce), hs) else acc)"

text \<open>
  \<open>collect_bills_and_keywords\<close> skips empty canonical titles, so no key of a registry
  it builds is the empty string.
\<close>

definition keys_nonempty :: "bill_map \<Rightarrow> bool" where
  "keys_nonempty bill_map \<longleftrightarrow> (\<forall>c \<in> fst ` set bill_map. c \<noteq> [])"

text \<open>The reasons of the two tiers that look at evidence: text score and field candidates.\<close>

definition evidence_reason :: "ustr \<Rightarrow> bool" where
  "evidence_reason why \<longleftrightarrow>
     (\<exists>r. why = asc ''text-match('' @ r) \<or> (\<exists>r. why = asc ''bills-field-candidate + text('' @ r)"

text \<open>The state of the resolver after a run of records.\<close>

definition run_state :: "unicode \<Rightarrow> bill_map \<Rightarrow> resolution_state \<Rightarrow> speech list \<Rightarrow> resolution_state" where
  "run_state U bill_map st recs = foldl (\<lambda>st rec. fst (label_speech U bill_map st rec)) st recs"

text \<open>
  No speaker is recorded with an empty title; it holds at the start and is kept by every
  step.  \<open>pick_ok\<close>: the running pick is \<open>None\<close> or a non-empty title.
\<close>

definition state_ok :: "resolution_state \<Rightarrow> bool" where
  "state_ok st \<longleftrightarrow> (\<forall>v \<in> ran (last_by_speaker st). v \<noteq> [])"

definition pick_ok :: "ustr option \<times> real \<times> ustr \<Rightarrow> bool" where
  "pick_ok pcw \<longleftrightarrow> fst pcw = None \<or> truthy (fst pcw)"

section \<open>An example transcript\<close>

text \<open>
  Five records over two bills.  The first has no bill field and no word of any bill; the
  second and third name their bill in field and text; the fourth follows the third without
  field or overlap; the fifth has a field but no overlap.  \<open>example_registry\<close> is the
  registry that \<open>collect_bills_and_keywords\<close> builds from them.
\<close>

definition speech_plain :: speech where
  "speech_plain = \<lparr> speech_id = Val 1, member_name = Val (asc ''park''), bills = Null,
                     speech_text = Val (asc ''hello'') \<rparr>"

definition speech_tax :: speech where
  "speech_tax = \<lparr> speech_id = Val 2, member_name = Val (asc ''kim''), bills = Val (asc ''Tax Act''),
                   speech_text = Val (asc ''the Tax Act is due'') \<rparr>"

definition speech_road :: speech where
  "speech_road = \<lparr> speech_id = Val 3, member_name = Val (asc ''lee''), bills = Val (asc ''Road Act''),
                    speech_text = Val (asc ''Road Act now'') \<rparr>"

definition speech_after :: speech where
  "speech_after = \<lparr> speech_id = Val 4, member_name = Val (asc ''lee''), bills = Absent,
                     speech_text = Val (asc ''hello'') \<rparr>"

definition speech_field_only :: speech where
  "speech_field_only = \<lparr> speech_id = Val 5, member_name = Val (asc ''choi''), bills = Val (asc ''Road Act''),
                     speech_text = Val (asc ''hello'') \<rparr>"

definition example_transcript :: "speech list" where
  "example_transcript = [speech_plain, speech_tax, speech_road, speech_after, speech_field_only]"

definition example_registry :: bill_map where
  "example_registry =
     [(asc ''Tax Act'',
       \<lparr> raw_variants = [asc ''Tax Act''], bill_keywords = [asc ''Tax'', asc ''Act''],
         patterns = [SpacedPat (asc ''Tax Act''), SpacedPat (asc ''Tax''), SpacedPat (asc ''Act'')] \<rparr>),
      (asc ''Road Act'',
       \<lparr> raw_variants = [asc ''Road Act''], bill_keywords = [asc ''Road'', asc ''Act''],
         patterns = [SpacedPat (asc ''Road Act''), SpacedPat (asc ''Road''), SpacedPat (asc ''Act'')] \<rparr>)]"

section \<open>The titles of the registry example\<close>

text \<open>
  A title with an enumeration prefix \<open>1. \<close> and a sponsor in parentheses after it, the
  same title without either, and their canonical form: the name of the act (six Hangul
  syllables) without the stop phrase for "partial amendment bill".
\<close>

definition title_enumerated :: ustr where
  "title_enumerated =
     [0x31, 0x2E, 0x20, 0xAD50, 0xC815, 0xACF5, 0xC81C, 0xD68C, 0xBC95, 0x20, 0xC77C, 0xBD80,
      0xAC1C, 0xC815, 0xBC95, 0xB960, 0xC548, 0x28, 0xD64D, 0xAE38, 0xB3D9, 0x20, 0xC758,
      0xC6D0, 0x20, 0xB300, 0xD45C, 0xBC1C, 0xC758, 0x29]"

definition title_plain :: ustr where
  "title_plain =
     [0xAD50, 0xC815, 0xACF5, 0xC81C, 0xD68C, 0xBC95, 0x20, 0xC77C, 0xBD80, 0xAC1C, 0xC815,
      0xBC95, 0xB960, 0xC548]"

definition title_canonical :: ustr where
  "title_canonical = [0xAD50, 0xC815, 0xACF5, 0xC81C, 0xD68C, 0xBC95]"

definition dedup_transcript :: "speech list" where
  "dedup_transcript =
     [\<lparr> speech_id = Val 1, member_name = Val (asc ''kim''), bills = Val title_enumerated,
         speech_text = Val [] \<rparr>,
      \<lparr> speech_id = Val 2, member_name = Val (asc ''lee''), bills = Val title_plain,
         speech_text = Val [] \<rparr>]"




definition title_double_spaced :: ustr where
  "title_double_spaced =
     [0xAD50, 0xC815, 0xACF5, 0xC81C, 0xD68C, 0xBC95, 0x20, 0x20, 0xC77C, 0xBD80, 0xAC1C, 0xC815,
      0xBC95, 0xB960, 0xC548]"


section \<open>Shape of normalized titles\<close>

text \<open>
  A string is single-spaced when every whitespace character in it is a plain space that is
  not followed by another whitespace character: the shape that the substitution in
  \<open>clean_spaces\<close> produces.
\<close>

fun single_spaced :: "ustr \<Rightarrow> bool" where
  "single_spaced [] = True"
| "single_spaced [c] = (is_space c \<longrightarrow> c = 0x20)"
| "single_spaced (c # d # r) =
     ((is_space c \<longrightarrow> c = 0x20 \<and> \<not> is_space d) \<and> single_spaced (d # r))"

text \<open>
  The value of \<open>s\<close> in \<open>normalize_bill_title\<close> just before the loop over
  \<open>STOP_PHRASES\<close>.
\<close>

definition before_stop_phrases :: "unicode \<Rightarrow> ustr \<Rightarrow> ustr" where
  "before_stop_phrases U raw =
     clean_spaces (RE_DANGLING_MARKS_sub (RE_PARENS_sub (RE_PREFIX_NUM_sub U
       (map (\<lambda>c. if c = 0x0A then 0x20 else c) (normalize_text U raw)))))"


section \<open>Ranking of keywords\<close>

text \<open>
  The position of the first occurrence of \<open>x\<close> in \<open>xs\<close>, the elements of \<open>xs\<close> in the
  order of their first occurrence, and the order of \<open>most_common\<close>: a greater count
  first, and among equal counts the earlier first occurrence.
\<close>

definition first_index :: "'a list \<Rightarrow> 'a \<Rightarrow> nat" where
  "first_index xs x = length (takeWhile (\<lambda>y. y \<noteq> x) xs)"

definition first_seen :: "'a list \<Rightarrow> 'a list" where
  "first_seen xs = rev (remdups (rev xs))"

definition ranks_before :: "ustr list \<Rightarrow> ustr \<Rightarrow> ustr \<Rightarrow> bool" where
  "ranks_before kept a b \<longleftrightarrow>
     count_list kept b < count_list kept a \<or>
     (count_list kept a = count_list kept b \<and> first_index kept a < first_index kept b)"

definition ranked :: "ustr list \<Rightarrow> ustr list" where
  "ranked kept = sort_key (\<lambda>w. - int (count_list kept w)) (first_seen kept)"


section \<open>A record with three bills\<close>

text \<open>
  Three bills whose names are not all equal, a record whose field lists them, one per
  line, and chat completions that fail for the first record and answer \<open>Road Act\<close>
  for the others.
\<close>

definition three_bills :: "ustr list" where
  "three_bills = [asc ''1. Tax Act'', asc ''2. Road Act'', asc ''3. Road Act (amended)'']"

definition speech_three :: speech where
  "speech_three =
     \<lparr> speech_id = Val 7, member_name = Val (asc ''kim''),
       bills = Val (asc ''1. Tax Act'' @ [0x0A] @ asc ''2. Road Act'' @ [0x0A] @
                    asc ''3. Road Act (amended)''),
       speech_text = Val (asc ''about roads'') \<rparr>"

definition llm_example :: "nat \<Rightarrow> llm_outcome" where
  "llm_example i = (if i = 0 then Failure else Reply (asc '' Road Act''))"

text \<open>A record whose \<open>bills\<close> is \<open>null\<close>, as an empty agenda cell is written.\<close>

definition speech_null_bills :: speech where
  "speech_null_bills =
     \<lparr> speech_id = Val 8, member_name = Val (asc ''lee''), bills = Null,
       speech_text = Val (asc ''opening'') \<rparr>"

section \<open>Lemmas on the resolver\<close>

lemma score_fold_nonneg:
  "0 \<le> h \<Longrightarrow> 0 \<le> s \<Longrightarrow>
   foldl (\<lambda>(hard, soft) (i, pat).
            let matches = int (finditer_count U pat T)
            in if matches = 0 then (hard, soft)
               else if i = 0 then (hard + matches, soft)
               else (hard, soft + matches)) (h, s) xs = (h', s') \<Longrightarrow> 0 \<le> h' \<and> 0 \<le> s'"
proof (induction xs arbitrary: h s)
  case Nil
  then show ?case by simp
next
  case (Cons x xs)
  obtain i pat where x: "x = (i, pat)" by (cases x)
  show ?case
    using Cons.prems Cons.IH [of "h + int (finditer_count U pat T)" s]
      Cons.IH [of h "s + int (finditer_count U pat T)"] Cons.IH [of h s]
    by (auto simp: x Let_def split: if_splits)
qed

lemma score_nonneg:
  "0 \<le> fst (score_text_for_bill U text e) \<and> 0 \<le> snd (score_text_for_bill U text e)"
proof (cases "text = []")
  case True
  then show ?thesis by (simp add: score_text_for_bill_def)
next
  case False
  obtain h s where hs: "score_text_for_bill U text e = (h, s)" by (cases "score_text_for_bill U text e")
  with False show ?thesis
    using score_fold_nonneg [of 0 0 U "normalize_text U text" "enumerate (patterns e)" h s]
    by (simp add: score_text_for_bill_def Let_def)
qed

lemma best_by_score_alt: "best_by_score U text entries = foldl (best_step U text) (None, (- 1, - 1)) entries"
proof -
  have "(\<lambda>(best, best_score) (c, e).
              let hs = score_text_for_bill U text e
              in if tuple_gt hs best_score then (Some c, hs) else (best, best_score)) = best_step U text"
    by (auto simp: best_step_def fun_eq_iff Let_def)
  then show ?thesis by (simp add: best_by_score_def)
qed

lemma best_by_score_snoc:
  "best_by_score U text (xs @ [ce]) = best_step U text (best_by_score U text xs) ce"
  by (simp add: best_by_score_alt)

lemma best_by_score_Nil: "best_by_score U text [] = (None, (- 1, - 1))"
  by (simp add: best_by_score_alt)

lemma best_by_score_some:
  "entries \<noteq> [] \<Longrightarrow>
   \<exists>c e. (c, e) \<in> set entries \<and> best_by_score U text entries = (Some c, score_text_for_bill U text e)"
proof (induction entries rule: rev_induct)
  case Nil
  then show ?case by simp
next
  case (snoc ce xs)
  obtain c e where ce: "ce = (c, e)" by (cases ce)
  show ?case
  proof (cases "xs = []")
    case True
    have "tuple_gt (score_text_for_bill U text e) (- 1, - 1)"
      using score_nonneg [of U "text" e] by (auto simp: tuple_gt_def)
    with True show ?thesis
      by (simp add: best_by_score_alt best_step_def ce)
  next
    case False
    from snoc.IH [OF False] obtain c' e' where
      "(c', e') \<in> set xs" "best_by_score U text xs = (Some c', score_text_for_bill U text e')"
      by blast
    then show ?thesis
      by (auto simp: best_by_score_snoc best_step_def ce Let_def)
  qed
qed

lemma best_step_zero:
  "score_text_for_bill U text (snd ce) = (0, 0) \<Longrightarrow> best_step U text (Some c0, (0, 0)) ce = (Some c0, (0, 0))"
  by (simp add: best_step_def tuple_gt_def)

lemma foldl_best_zero:
  "\<forall>ce \<in> set xs. score_text_for_bill U text (snd ce) = (0, 0) \<Longrightarrow>
   foldl (best_step U text) (Some c0, (0, 0)) xs = (Some c0, (0, 0))"
  by (induction xs) (simp_all add: best_step_zero)

lemma best_by_score_all_zero:
  assumes "\<forall>ce \<in> set (ce0 # rest). score_text_for_bill U text (snd ce) = (0, 0)"
  shows "best_by_score U text (ce0 # rest) = (Some (fst ce0), (0, 0))"
proof -
  have "best_step U text (None, (- 1, - 1)) ce0 = (Some (fst ce0), (0, 0))"
    using assms by (simp add: best_step_def tuple_gt_def)
  then show ?thesis
    using assms foldl_best_zero [of rest U "text" "fst ce0"] by (simp add: best_by_score_alt)
qed

lemma step2_nonempty:
  assumes "bill_map \<noteq> []" "keys_nonempty bill_map"
  shows "\<exists>c conf why. step2_text_score U bill_map text = (Some c, conf, why) \<and> c \<noteq> [] \<and>
           c \<in> fst ` set bill_map \<and> evidence_reason why"
proof -
  from best_by_score_some [OF assms(1), of U "text"] obtain c e where
    ce: "(c, e) \<in> set bill_map" and b: "best_by_score U text bill_map = (Some c, score_text_for_bill U text e)"
    by blast
  from ce assms(2) have "c \<noteq> []" by (force simp: keys_nonempty_def)
  with ce b show ?thesis
    by (force simp: step2_text_score_def choose_by_score_def Let_def evidence_reason_def split: prod.splits)
qed

lemma candidate_entries_keys:
  "(c, e) \<in> set (candidate_entries bill_map candidates) \<Longrightarrow> (c, e) \<in> set bill_map \<and> c \<in> set candidates"
  by (auto simp: candidate_entries_def split: option.splits dest: map_of_SomeD [OF sym] map_of_SomeD)

lemma step3_keeps:
  assumes "keys_nonempty bill_map" "pcw = (Some c, conf, why)" "c \<noteq> []" "c \<in> fst ` set bill_map" "evidence_reason why"
  shows "\<exists>c' conf' why'. step3_candidates U bill_map text candidates pcw = (Some c', conf', why') \<and> c' \<noteq> [] \<and>
           c' \<in> fst ` set bill_map \<and> evidence_reason why'"
proof (cases "candidates \<noteq> [] \<and> conf < 0.6 \<and> truthy (fst (best_by_score U text (candidate_entries bill_map candidates)))")
  case False
  with assms show ?thesis
    by (auto simp: step3_candidates_def Let_def split: prod.splits)
next
  case True
  then obtain b sc where bs: "best_by_score U text (candidate_entries bill_map candidates) = (Some b, sc)" and "b \<noteq> []"
    by (cases "best_by_score U text (candidate_entries bill_map candidates)") (auto elim: truthy.elims)
  have ne: "candidate_entries bill_map candidates \<noteq> []"
    using bs by (auto simp: best_by_score_Nil)
  from best_by_score_some [OF ne, of U "text"] bs have "b \<in> fst ` set (candidate_entries bill_map candidates)"
    by force
  then have "b \<in> fst ` set bill_map"
    using candidate_entries_keys by force
  with True bs \<open>b \<noteq> []\<close> assms(2) show ?thesis
    by (simp add: step3_candidates_def Let_def evidence_reason_def)
qed

lemma step4_keeps: "truthy picked \<Longrightarrow> step4_agenda_flow st (picked, conf, why) = (picked, conf, why)"
  by (simp add: step4_agenda_flow_def)

lemma step5_keeps: "truthy picked \<Longrightarrow> step5_speaker_history st spk (picked, conf, why) = (picked, conf, why)"
  by (simp add: step5_speaker_history_def)

lemma resolve_pick_nonempty:
  assumes "bill_map \<noteq> []" "keys_nonempty bill_map"
  shows "\<exists>c conf why. resolve_pick U bill_map st rec = (Some c, conf, why) \<and> c \<noteq> [] \<and>
           c \<in> fst ` set bill_map \<and> evidence_reason why"
proof -
  let ?text = "or_empty (dict_get (speech_text rec))"
  from step2_nonempty [OF assms, of U ?text] obtain c conf why where
    s2: "step2_text_score U bill_map ?text = (Some c, conf, why)" "c \<noteq> []" "c \<in> fst ` set bill_map" "evidence_reason why"
    by blast
  from step3_keeps [OF assms(2) s2, of U ?text "field_candidates U bill_map rec"]
  obtain c' conf' why' where
    s3: "step3_candidates U bill_map ?text (field_candidates U bill_map rec) (step2_text_score U bill_map ?text) = (Some c', conf', why')"
       "c' \<noteq> []" "c' \<in> fst ` set bill_map" "evidence_reason why'"
    by blast
  then show ?thesis
    by (simp add: resolve_pick_def Let_def step4_keeps step5_keeps)
qed

lemma str_int_0: "str_int 0 = asc ''0''"
  by (simp add: str_int_def dec_nat.simps asc_def)

lemma round2_consts:
  "round2 0 = 0" "round2 0.4 = 0.4" "round2 0.45 = 0.45" "round2 0.5 = 0.5"
  "round2 0.6 = 0.6" "round2 0.7 = 0.7" "round2 0.9 = 0.9"
  by (simp_all add: round2_def)

lemma step2_all_zero:
  assumes "bill_map = (c0, e0) # rest" "c0 \<noteq> []"
    and "\<forall>e \<in> snd ` set bill_map. score_text_for_bill U text e = (0, 0)"
  shows "step2_text_score U bill_map text = (Some c0, 0, asc ''text-match(hard=0, soft=0)'')"
proof -
  have "best_by_score U text ((c0, e0) # rest) = (Some (fst (c0, e0)), (0, 0))"
    by (rule best_by_score_all_zero) (use assms in auto)
  with assms(1,2) show ?thesis
    by (simp add: step2_text_score_def choose_by_score_def str_int_0) (simp add: asc_def)
qed

lemma step3_no_candidates: "step3_candidates U bill_map text [] pcw = pcw"
  by (cases pcw) (simp add: step3_candidates_def)

lemma resolve_pick_all_zero:
  assumes "bill_map = (c0, e0) # rest" "c0 \<noteq> []"
    and "\<forall>e \<in> snd ` set bill_map. score_text_for_bill U (or_empty (dict_get (speech_text rec))) e = (0, 0)"
    and "field_candidates U bill_map rec = []"
  shows "resolve_pick U bill_map st rec = (Some c0, 0, asc ''text-match(hard=0, soft=0)'')"
  using step2_all_zero [OF assms(1,2,3)] assms(2,4)
  by (simp add: resolve_pick_def Let_def step3_no_candidates step4_keeps step5_keeps)

lemma add_variant_keys: "fst ` set (add_variant canon raw cs) = insert canon (fst ` set cs)"
  by (induction canon raw cs rule: add_variant.induct) auto

lemma canonical_set_fold_keys:
  "\<forall>c \<in> fst ` set acc. c \<noteq> [] \<Longrightarrow>
   \<forall>c \<in> fst ` set (foldl (\<lambda>canonical_set raw.
              let canon = normalize_bill_title U raw
              in if canon = [] then canonical_set
                 else add_variant canon raw canonical_set) acc raws). c \<noteq> []"
proof (induction raws arbitrary: acc)
  case Nil
  then show ?case by simp
next
  case (Cons raw raws)
  show ?case
  proof (cases "normalize_bill_title U raw = []")
    case True
    with Cons show ?thesis by simp
  next
    case False
    have "\<forall>c \<in> fst ` set (add_variant (normalize_bill_title U raw) raw acc). c \<noteq> []"
      using Cons.prems False by (simp add: add_variant_keys)
    from Cons.IH [OF this] False show ?thesis by (simp add: Let_def)
  qed
qed

lemma collect_keys:
  "fst ` set (snd (collect_bills_and_keywords U speeches)) =
   fst ` set (canonical_set_of U (concat (map (\<lambda>rec. split_raw_bills_field U (dict_get (bills rec))) speeches)))"
  by (force simp: collect_bills_and_keywords_def Let_def)

lemma collect_keys_nonempty: "keys_nonempty (snd (collect_bills_and_keywords U speeches))"
  unfolding keys_nonempty_def collect_keys canonical_set_of_def
  by (rule canonical_set_fold_keys) simp

lemma label_speech_fields:
  "resolve_pick U bill_map st rec = (picked, conf, why) \<Longrightarrow>
   label_speech U bill_map st rec =
     (step6_update st (dict_get (member_name rec)) picked,
      \<lparr> speech_id = speech_id rec, member_name = member_name rec, bills = bills rec,
        speech_text = speech_text rec,
        bill_assigned = picked, bill_confidence = round2 conf, bill_reason = why \<rparr>)"
  by (simp add: label_speech_def Let_def)

lemma resolve_pick_stateless:
  assumes "bill_map \<noteq> []" "keys_nonempty bill_map"
  shows "resolve_pick U bill_map st rec = resolve_pick U bill_map st' rec"
proof -
  let ?text = "or_empty (dict_get (speech_text rec))"
  from step2_nonempty [OF assms, of U ?text] obtain c conf why where
    s2: "step2_text_score U bill_map ?text = (Some c, conf, why)" "c \<noteq> []" "c \<in> fst ` set bill_map" "evidence_reason why"
    by blast
  from step3_keeps [OF assms(2) s2, of U ?text "field_candidates U bill_map rec"]
  obtain c' conf' why' where
    s3: "step3_candidates U bill_map ?text (field_candidates U bill_map rec) (step2_text_score U bill_map ?text) = (Some c', conf', why')"
       "c' \<noteq> []"
    by blast
  then show ?thesis
    by (simp add: resolve_pick_def Let_def step4_keeps step5_keeps)
qed

lemma label_speech_snd_stateless:
  assumes "bill_map \<noteq> []" "keys_nonempty bill_map"
  shows "snd (label_speech U bill_map st rec) = snd (label_speech U bill_map st' rec)"
  using resolve_pick_stateless [OF assms, of U st rec st']
  by (simp add: label_speech_def Let_def split: prod.splits)

lemma assign_loop_length: "length (assign_loop U bill_map st recs) = length recs"
  by (induction recs arbitrary: st) (auto split: prod.splits)

lemma assign_loop_nth:
  "i < length recs \<Longrightarrow>
   assign_loop U bill_map st recs ! i =
     snd (label_speech U bill_map (run_state U bill_map st (take i recs)) (recs ! i))"
proof (induction recs arbitrary: st i)
  case Nil
  then show ?case by simp
next
  case (Cons r recs)
  show ?case
  proof (cases i)
    case 0
    then show ?thesis by (simp add: run_state_def split: prod.splits)
  next
    case (Suc j)
    with Cons.prems have "j < length recs" by simp
    from Cons.IH [OF this] Suc show ?thesis
      by (simp add: run_state_def split: prod.splits)
  qed
qed

lemma assign_loop_append:
  "assign_loop U bill_map st (xs @ ys) =
   assign_loop U bill_map st xs @ assign_loop U bill_map (run_state U bill_map st xs) ys"
  by (induction xs arbitrary: st) (auto simp: run_state_def split: prod.splits)

lemma assign_nth_stateless:
  assumes "bill_map \<noteq> []" "keys_nonempty bill_map" "i < length speeches"
  shows "assign_bills_to_speeches U speeches bill_map ! i =
         snd (label_speech U bill_map initial_state (speeches ! i))"
  unfolding assign_bills_to_speeches_def assign_loop_nth [OF assms(3)]
  by (rule label_speech_snd_stateless [OF assms(1,2)])

lemma truthy_Some_iff: "truthy p \<longleftrightarrow> (\<exists>b. p = Some b \<and> b \<noteq> [])"
  by (cases p) auto

lemma step2_pick_ok: "pick_ok (step2_text_score U bill_map text)"
  by (auto simp: pick_ok_def step2_text_score_def Let_def split: prod.splits)

lemma step3_pick_ok: "pick_ok pcw \<Longrightarrow> pick_ok (step3_candidates U bill_map text candidates pcw)"
  by (auto simp: pick_ok_def step3_candidates_def Let_def split: prod.splits)

lemma step4_pick_ok: "pick_ok pcw \<Longrightarrow> pick_ok (step4_agenda_flow st pcw)"
  by (auto simp: pick_ok_def step4_agenda_flow_def Let_def split: prod.splits)

lemma step5_pick_ok: "state_ok st \<Longrightarrow> pick_ok pcw \<Longrightarrow> pick_ok (step5_speaker_history st spk pcw)"
  by (auto simp: pick_ok_def step5_speaker_history_def Let_def state_ok_def ran_def split: prod.splits)

lemma resolve_pick_ok: "state_ok st \<Longrightarrow> pick_ok (resolve_pick U bill_map st rec)"
  by (simp add: resolve_pick_def Let_def step2_pick_ok step3_pick_ok step4_pick_ok step5_pick_ok)

lemma step6_update_cases:
  "step6_update st spk None = st"
  "b \<noteq> [] \<Longrightarrow> step6_update st spk (Some b) =
     \<lparr> last_agenda_canon = Some b, last_by_speaker = (last_by_speaker st)(spk \<mapsto> b) \<rparr>"
  by (simp_all add: step6_update_def)

lemma step6_state_ok: "state_ok st \<Longrightarrow> state_ok (step6_update st spk picked)"
proof (cases "truthy picked")
  case False
  assume "state_ok st"
  with False show ?thesis by (simp add: step6_update_def)
next
  case True
  then obtain b where b: "picked = Some b" "b \<noteq> []" by (auto simp: truthy_Some_iff)
  assume "state_ok st"
  then show ?thesis
    using b by (auto simp: step6_update_def state_ok_def ran_def split: if_splits)
qed

lemma label_speech_state_ok: "state_ok st \<Longrightarrow> state_ok (fst (label_speech U bill_map st rec))"
  by (simp add: label_speech_def Let_def step6_state_ok split: prod.splits)

lemma initial_state_ok: "state_ok initial_state"
  by (simp add: state_ok_def initial_state_def)

lemma run_state_ok: "state_ok st \<Longrightarrow> state_ok (run_state U bill_map st recs)"
  by (induction recs arbitrary: st) (simp_all add: run_state_def label_speech_state_ok)

lemma tuple_gt_trans: "tuple_gt a b \<Longrightarrow> tuple_gt b c \<Longrightarrow> tuple_gt a c"
  by (auto simp: tuple_gt_def)

lemma tuple_gt_le_trans: "tuple_gt a b \<Longrightarrow> \<not> tuple_gt c b \<Longrightarrow> tuple_gt a c"
  by (auto simp: tuple_gt_def)

lemma best_by_score_first_max:
  "entries \<noteq> [] \<Longrightarrow>
   \<exists>pre c e post. entries = pre @ (c, e) # post \<and>
     best_by_score U text entries = (Some c, score_text_for_bill U text e) \<and>
     (\<forall>ce \<in> set pre. tuple_gt (score_text_for_bill U text e) (score_text_for_bill U text (snd ce))) \<and>
     (\<forall>ce \<in> set post. \<not> tuple_gt (score_text_for_bill U text (snd ce)) (score_text_for_bill U text e))"
proof (induction entries rule: rev_induct)
  case Nil
  then show ?case by simp
next
  case (snoc ce1 xs)
  obtain c1 e1 where ce1: "ce1 = (c1, e1)" by (cases ce1)
  show ?case
  proof (cases "xs = []")
    case True
    have "tuple_gt (score_text_for_bill U text e1) (- 1, - 1)"
      using score_nonneg [of U "text" e1] by (auto simp: tuple_gt_def)
    then have "best_by_score U text [(c1, e1)] = (Some c1, score_text_for_bill U text e1)"
      by (simp add: best_by_score_alt best_step_def)
    with True ce1 show ?thesis by fastforce
  next
    case False
    from snoc.IH [OF False] obtain pre c e post where
      xs: "xs = pre @ (c, e) # post" and
      b: "best_by_score U text xs = (Some c, score_text_for_bill U text e)" and
      pre: "\<forall>ce \<in> set pre. tuple_gt (score_text_for_bill U text e) (score_text_for_bill U text (snd ce))" and
      post: "\<forall>ce \<in> set post. \<not> tuple_gt (score_text_for_bill U text (snd ce)) (score_text_for_bill U text e)"
      by blast
    show ?thesis
    proof (cases "tuple_gt (score_text_for_bill U text e1) (score_text_for_bill U text e)")
      case True
      have new: "best_by_score U text (xs @ [ce1]) = (Some c1, score_text_for_bill U text e1)"
        using True b by (simp add: best_by_score_snoc best_step_def ce1)
      have "\<forall>ce \<in> set xs. tuple_gt (score_text_for_bill U text e1) (score_text_for_bill U text (snd ce))"
        using True pre post unfolding xs
        by (auto intro: tuple_gt_trans tuple_gt_le_trans)
      with new show ?thesis
        by (intro exI [of _ xs] exI [of _ c1] exI [of _ e1] exI [of _ "[]"]) (simp add: ce1)
    next
      case False
      have keep: "best_by_score U text (xs @ [ce1]) = (Some c, score_text_for_bill U text e)"
        using False b by (simp add: best_by_score_snoc best_step_def ce1)
      show ?thesis
        using keep pre post False
        by (intro exI [of _ pre] exI [of _ c] exI [of _ e] exI [of _ "post @ [ce1]"])
           (simp add: xs ce1)
    qed
  qed
qed

lemma evidence_reason_distinct:
  assumes "evidence_reason why"
  shows "why \<noteq> asc ''agenda-flow'' \<and> why \<noteq> asc ''speaker-history'' \<and> why \<noteq> asc ''no-match'' \<and> why \<noteq> []"
  using assms by (auto simp: evidence_reason_def asc_def)

lemma bill_map_map_of:
  "c \<in> fst ` set bill_map \<Longrightarrow> \<exists>e. map_of bill_map c = Some e \<and> (c, e) \<in> set bill_map"
  by (metis map_of_SomeD map_of_eq_None_iff not_Some_eq)

lemma candidate_entries_Cons:
  assumes "c0 \<in> fst ` set bill_map"
  shows "\<exists>e0 rest. candidate_entries bill_map (c0 # cs) = (c0, e0) # rest \<and>
           snd ` set ((c0, e0) # rest) \<subseteq> snd ` set bill_map"
proof -
  from bill_map_map_of [OF assms] obtain e0 where e0: "map_of bill_map c0 = Some e0" by blast
  have "snd ` set (candidate_entries bill_map (c0 # cs)) \<subseteq> snd ` set bill_map"
    using candidate_entries_keys by force
  with e0 show ?thesis by (simp add: candidate_entries_def)
qed

lemma field_candidates_known: "set (field_candidates U bill_map rec) \<subseteq> fst ` set bill_map"
  by (auto simp: field_candidates_def Let_def)

lemma str_int_00: "asc ''bills-field-candidate + text('' @ str_int 0 @ asc '','' @ str_int 0 @ asc '')'' =
   asc ''bills-field-candidate + text(0,0)''"
  by (simp add: str_int_0) (simp add: asc_def)

lemma step3_all_zero:
  assumes "keys_nonempty bill_map"
    and "\<forall>e \<in> snd ` set bill_map. score_text_for_bill U text e = (0, 0)"
    and "candidates = c0 # cs" "set candidates \<subseteq> fst ` set bill_map"
  shows "step3_candidates U bill_map text candidates (picked, 0, why) =
         (Some c0, 0.6, asc ''bills-field-candidate + text(0,0)'')"
proof -
  have c0: "c0 \<in> fst ` set bill_map" using assms(3,4) by auto
  then have "c0 \<noteq> []" using assms(1) by (auto simp: keys_nonempty_def)
  from candidate_entries_Cons [OF c0, of cs] obtain e0 rest where
    ce: "candidate_entries bill_map candidates = (c0, e0) # rest"
    and sub: "snd ` set ((c0, e0) # rest) \<subseteq> snd ` set bill_map"
    by (auto simp: assms(3))
  have "\<forall>ce \<in> set ((c0, e0) # rest). score_text_for_bill U text (snd ce) = (0, 0)"
  proof
    fix ce
    assume "ce \<in> set ((c0, e0) # rest)"
    then have "snd ce \<in> snd ` set ((c0, e0) # rest)" by (rule imageI)
    with sub have "snd ce \<in> snd ` set bill_map" by (rule subsetD)
    with assms(2) show "score_text_for_bill U text (snd ce) = (0, 0)" by blast
  qed
  then have "best_by_score U text ((c0, e0) # rest) = (Some (fst (c0, e0)), (0, 0))"
    by (rule best_by_score_all_zero)
  with ce \<open>c0 \<noteq> []\<close> assms(3) show ?thesis
    by (simp add: step3_candidates_def str_int_00)
qed

lemma resolve_pick_all_zero_candidates:
  assumes "bill_map = (k0, e0) # rest" "keys_nonempty bill_map"
    and "\<forall>e \<in> snd ` set bill_map. score_text_for_bill U (or_empty (dict_get (speech_text rec))) e = (0, 0)"
    and "field_candidates U bill_map rec = c0 # cs"
  shows "resolve_pick U bill_map st rec = (Some c0, 0.6, asc ''bills-field-candidate + text(0,0)'')"
proof -
  have k0: "k0 \<noteq> []" using assms(1,2) by (auto simp: keys_nonempty_def)
  have c0: "c0 \<noteq> []"
    using field_candidates_known [of U bill_map rec] assms(2,4) by (auto simp: keys_nonempty_def)
  have s3: "step3_candidates U bill_map (or_empty (dict_get (speech_text rec))) (field_candidates U bill_map rec)
          (Some k0, 0, asc ''text-match(hard=0, soft=0)'') = (Some c0, 0.6, asc ''bills-field-candidate + text(0,0)'')"
    by (rule step3_all_zero [OF assms(2,3,4)]) (rule field_candidates_known)
  show ?thesis
    using step2_all_zero [OF assms(1) k0 assms(3)] s3 c0
    by (simp add: resolve_pick_def Let_def step4_keeps step5_keeps)
qed

lemma run_state_snoc:
  "run_state U bill_map st (recs @ [rec]) = fst (label_speech U bill_map (run_state U bill_map st recs) rec)"
  by (simp add: run_state_def)

lemma assign_snoc_last:
  "last (assign_bills_to_speeches U (recs @ [rec]) bill_map) =
   snd (label_speech U bill_map (run_state U bill_map initial_state recs) rec)"
  by (simp add: assign_bills_to_speeches_def assign_loop_append split: prod.splits)

lemma example_registry_collect:
  "snd (collect_bills_and_keywords plain_unicode example_transcript) = example_registry"
  by code_simp

lemma example_registry_ok: "example_registry \<noteq> [] \<and> keys_nonempty example_registry"
  using collect_keys_nonempty [of plain_unicode example_transcript]
  by (simp add: example_registry_collect) (simp add: example_registry_def)

lemma example_scores_hello:
  "\<forall>e \<in> snd ` set example_registry. score_text_for_bill plain_unicode (asc ''hello'') e = (0, 0)"
  by code_simp

lemma example_outputs:
  "snd (label_speech plain_unicode example_registry initial_state speech_plain) =
     \<lparr> speech_id = Val 1, member_name = Val (asc ''park''), bills = Null,
       speech_text = Val (asc ''hello''), bill_assigned = Some (asc ''Tax Act''),
       bill_confidence = 0, bill_reason = asc ''text-match(hard=0, soft=0)'' \<rparr>"
  "snd (label_speech plain_unicode example_registry initial_state speech_road) =
     \<lparr> speech_id = Val 3, member_name = Val (asc ''lee''), bills = Val (asc ''Road Act''),
       speech_text = Val (asc ''Road Act now''), bill_assigned = Some (asc ''Road Act''),
       bill_confidence = 0.9, bill_reason = asc ''text-match(hard=1, soft=2)'' \<rparr>"
  "snd (label_speech plain_unicode example_registry initial_state speech_after) =
     \<lparr> speech_id = Val 4, member_name = Val (asc ''lee''), bills = Absent,
       speech_text = Val (asc ''hello''), bill_assigned = Some (asc ''Tax Act''),
       bill_confidence = 0, bill_reason = asc ''text-match(hard=0, soft=0)'' \<rparr>"
  "snd (label_speech plain_unicode example_registry initial_state speech_field_only) =
     \<lparr> speech_id = Val 5, member_name = Val (asc ''choi''), bills = Val (asc ''Road Act''),
       speech_text = Val (asc ''hello''), bill_assigned = Some (asc ''Road Act''),
       bill_confidence = 0.6, bill_reason = asc ''bills-field-candidate + text(0,0)'' \<rparr>"
  by code_simp+

lemma example_nth:
  "i < 5 \<Longrightarrow> assign_bills_to_speeches plain_unicode example_transcript example_registry ! i =
     snd (label_speech plain_unicode example_registry initial_state (example_transcript ! i))"
  using example_registry_ok by (intro assign_nth_stateless) (simp_all add: example_transcript_def)

lemma example_candidates:
  "field_candidates plain_unicode example_registry speech_plain = []"
  "field_candidates plain_unicode example_registry speech_after = []"
  "field_candidates plain_unicode example_registry speech_field_only = [asc ''Road Act'']"
  by code_simp+

lemma label_speech_agenda:
  assumes "bill_map \<noteq> []" "keys_nonempty bill_map"
  shows "last_agenda_canon (fst (label_speech U bill_map st rec)) =
         bill_assigned (snd (label_speech U bill_map initial_state rec))"
proof -
  from resolve_pick_nonempty [OF assms, of U st rec] obtain c conf why where
    rp: "resolve_pick U bill_map st rec = (Some c, conf, why)" and c: "c \<noteq> []"
    by blast
  have rp0: "resolve_pick U bill_map initial_state rec = (Some c, conf, why)"
    using resolve_pick_stateless [OF assms, of U initial_state rec st] rp by simp
  show ?thesis
    unfolding label_speech_fields [OF rp] label_speech_fields [OF rp0]
    using c by (simp add: step6_update_def)
qed

lemma label_speech_update:
  assumes "state_ok st"
  shows "case bill_assigned (snd (label_speech U bill_map st rec)) of
           None \<Rightarrow> fst (label_speech U bill_map st rec) = st
         | Some b \<Rightarrow> fst (label_speech U bill_map st rec) =
             \<lparr> last_agenda_canon = Some b,
               last_by_speaker = (last_by_speaker st)(dict_get (member_name rec) \<mapsto> b) \<rparr>"
proof -
  obtain picked conf why where rp: "resolve_pick U bill_map st rec = (picked, conf, why)"
    by (cases "resolve_pick U bill_map st rec")
  from resolve_pick_ok [OF assms, of U bill_map rec] rp
  have ok: "picked = None \<or> truthy picked" by (simp add: pick_ok_def)
  show ?thesis
  proof (cases picked)
    case None
    then show ?thesis
      unfolding label_speech_fields [OF rp] by (simp add: step6_update_cases)
  next
    case (Some b)
    with ok have "b \<noteq> []" by simp
    with Some show ?thesis
      unfolding label_speech_fields [OF rp] by (simp add: step6_update_cases)
  qed
qed


section \<open>Whitespace cleaning and normalized titles\<close>

lemma sub_runs_keep: "\<forall>c \<in> set s. \<not> P c \<Longrightarrow> sub_runs P r s = s"
  by (induction s) auto

lemma sub_runs_set: "set (sub_runs P r s) \<subseteq> insert r {c \<in> set s. \<not> P c}"
proof (induction P r s rule: sub_runs.induct)
  case (1 P r)
  then show ?case by simp
next
  case (2 P r c cs)
  show ?case
  proof (cases "P c")
    case True
    have "set (dropWhile P cs) \<subseteq> set cs" by (rule set_dropWhileD [THEN subsetI])
    with 2(1) [OF True] True show ?thesis by auto
  next
    case False
    with 2(2) [OF False] show ?thesis by auto
  qed
qed

lemma sub_runs_hd:
  "\<not> P x \<Longrightarrow> sub_runs P r (x # xs) = x # sub_runs P r xs"
  by simp

lemma dropWhile_hd: "dropWhile P xs = y # ys \<Longrightarrow> \<not> P y"
  by (metis hd_dropWhile list.distinct(1) list.sel(1))

lemma single_spaced_sub_runs: "single_spaced (sub_runs is_space 0x20 s)"
proof (induction "is_space" "0x20 :: nat" s rule: sub_runs.induct)
  case 1
  then show ?case by simp
next
  case (2 c cs)
  show ?case
  proof (cases "is_space c")
    case True
    note IH = 2(1) [OF True]
    show ?thesis
    proof (cases "dropWhile is_space cs")
      case Nil
      have "sub_runs is_space 0x20 (c # cs) = 0x20 # sub_runs is_space 0x20 (dropWhile is_space cs)"
        using True by simp
      then have "sub_runs is_space 0x20 (c # cs) = [0x20]"
        unfolding Nil by simp
      then show ?thesis by simp
    next
      case (Cons y ys)
      then have "\<not> is_space y" by (rule dropWhile_hd)
      with IH True Cons show ?thesis by simp
    qed
  next
    case False
    note IH = 2(2) [OF False]
    show ?thesis
    proof (cases "sub_runs is_space 0x20 cs")
      case Nil
      with False show ?thesis by simp
    next
      case (Cons y ys)
      with IH False show ?thesis by simp
    qed
  qed
qed

lemma single_spaced_fixed: "single_spaced v \<Longrightarrow> sub_runs is_space 0x20 v = v"
  by (induction v rule: single_spaced.induct) auto

lemma single_spaced_tl: "single_spaced (c # v) \<Longrightarrow> single_spaced v"
  by (cases v) auto

lemma single_spaced_dropWhile: "single_spaced v \<Longrightarrow> single_spaced (dropWhile P v)"
  by (induction v) (auto dest: single_spaced_tl)

lemma single_spaced_prefix: "single_spaced (xs @ ys) \<Longrightarrow> single_spaced xs"
proof (induction xs rule: single_spaced.induct)
  case 1
  then show ?case by simp
next
  case (2 c)
  then show ?case by (cases ys) auto
next
  case (3 c d r)
  then show ?case by auto
qed

lemma rev_dropWhile_rev_prefix: "\<exists>zs. u = rev (dropWhile P (rev u)) @ zs"
proof -
  have "rev u = takeWhile P (rev u) @ dropWhile P (rev u)" by simp
  then have "rev (rev u) = rev (takeWhile P (rev u) @ dropWhile P (rev u))" by (rule arg_cong)
  then show ?thesis by (metis rev_append rev_rev_ident)
qed

lemma single_spaced_strip: "single_spaced v \<Longrightarrow> single_spaced (strip v)"
proof -
  assume "single_spaced v"
  then have u: "single_spaced (dropWhile is_space v)" by (rule single_spaced_dropWhile)
  obtain zs where "dropWhile is_space v = strip v @ zs"
    using rev_dropWhile_rev_prefix [of "dropWhile is_space v" is_space] by (auto simp: strip_def)
  with u show ?thesis by (metis single_spaced_prefix)
qed

lemma dropWhile_id_iff: "xs = [] \<or> \<not> P (hd xs) \<Longrightarrow> dropWhile P xs = xs"
  by (cases xs) auto

lemma strip_edges:
  "strip v = [] \<or> (\<not> is_space (hd (strip v)) \<and> \<not> is_space (last (strip v)))"
proof (cases "dropWhile is_space v")
  case Nil
  have "strip v = []" unfolding strip_def Nil by simp
  then show ?thesis by simp
next
  case (Cons x u)
  then have x: "\<not> is_space x" by (rule dropWhile_hd)
  let ?w = "dropWhile is_space (rev (x # u))"
  have sv: "strip v = rev ?w" unfolding strip_def Cons by simp
  have w: "?w \<noteq> []"
    using x by (auto simp: dropWhile_append)
  then obtain y ys where yys: "?w = y # ys" by (cases ?w) auto
  then have y: "\<not> is_space y" by (rule dropWhile_hd)
  have "last ?w = x"
    using x by (auto simp: dropWhile_append)
  then have h: "hd (rev ?w) = x" using w by (simp add: hd_rev)
  have l: "last (rev ?w) = y" unfolding yys by simp
  show ?thesis
    unfolding sv h l using x y by simp
qed

lemma strip_fixed:
  assumes "v = [] \<or> (\<not> is_space (hd v) \<and> \<not> is_space (last v))"
  shows "strip v = v"
proof (cases "v = []")
  case True
  then show ?thesis by (simp add: strip_def)
next
  case False
  with assms have h: "\<not> is_space (hd v)" and l: "\<not> is_space (last v)" by auto
  have 1: "dropWhile is_space v = v" using h False by (simp add: dropWhile_id_iff)
  have "hd (rev v) = last v" using False by (simp add: hd_rev)
  with l have 2: "dropWhile is_space (rev v) = rev v"
    using False by (simp add: dropWhile_id_iff)
  show ?thesis by (simp add: strip_def 1 2)
qed

lemma strip_strip: "strip (strip v) = strip v"
  by (rule strip_fixed) (rule strip_edges)

lemma clean_spaces_idem: "clean_spaces (clean_spaces s) = clean_spaces s"
proof -
  have "single_spaced (strip (sub_runs is_space 0x20 s))"
    by (rule single_spaced_strip) (rule single_spaced_sub_runs)
  then have "sub_runs is_space 0x20 (strip (sub_runs is_space 0x20 s)) = strip (sub_runs is_space 0x20 s)"
    by (rule single_spaced_fixed)
  then show ?thesis by (simp add: clean_spaces_def strip_strip)
qed

lemma strip_set: "set (strip v) \<subseteq> set v"
proof
  fix x
  assume "x \<in> set (strip v)"
  then have "x \<in> set (dropWhile is_space (rev (dropWhile is_space v)))"
    by (simp add: strip_def)
  then have "x \<in> set (rev (dropWhile is_space v))" by (rule set_dropWhileD)
  then have "x \<in> set (dropWhile is_space v)" by simp
  then show "x \<in> set v" by (rule set_dropWhileD)
qed

lemma clean_spaces_set: "set (clean_spaces s) \<subseteq> insert 0x20 {c \<in> set s. \<not> is_space c}"
  using strip_set [of "sub_runs is_space 0x20 s"] sub_runs_set [of is_space "0x20" s]
  unfolding clean_spaces_def by blast

lemma startswith_rest_eq: "startswith_rest p s = Some r \<Longrightarrow> s = p @ r"
  by (induction p s rule: startswith_rest.induct) (auto split: if_splits)

lemma str_remove_set: "set (str_remove sp s) \<subseteq> set s"
proof (induction sp s rule: str_remove.induct)
  case (1 sp)
  then show ?case by simp
next
  case (2 sp c cs)
  show ?case
  proof (cases "sp = []")
    case True
    then show ?thesis by simp
  next
    case False
    show ?thesis
    proof (cases "startswith_rest sp (c # cs)")
      case None
      with 2(1) [OF False None] False show ?thesis by auto
    next
      case (Some r)
      from startswith_rest_eq [OF Some] have "set r \<subseteq> set (c # cs)"
        by (metis Un_upper2 set_append)
      with 2(2) [OF False Some] False Some show ?thesis by auto
    qed
  qed
qed

lemma foldl_str_remove_set: "set (foldl (\<lambda>s sp. str_remove sp s) s sps) \<subseteq> set s"
proof (induction sps arbitrary: s)
  case Nil
  then show ?case by simp
next
  case (Cons sp sps)
  have "set (foldl (\<lambda>s sp. str_remove sp s) (str_remove sp s) sps) \<subseteq> set (str_remove sp s)"
    by (rule Cons.IH)
  also have "\<dots> \<subseteq> set s" by (rule str_remove_set)
  finally show ?case by simp
qed

lemma map_replace_absent: "x \<notin> set t \<Longrightarrow> map (\<lambda>c. if c = x then y else c) t = t"
  by (induction t) auto

lemma foldl_str_remove_fixed:
  "\<forall>sp \<in> set sps. str_remove sp t = t \<Longrightarrow> foldl (\<lambda>s sp. str_remove sp s) t sps = t"
  by (induction sps) simp_all

lemma normalize_bill_title_shape:
  "raw \<noteq> [] \<Longrightarrow> normalize_bill_title U raw =
     clean_spaces (foldl (\<lambda>s sp. str_remove sp s) (before_stop_phrases U raw) STOP_PHRASES)"
  by (simp add: normalize_bill_title_def before_stop_phrases_def Let_def)

lemma is_space_facts: "is_space 0x0A" "is_space 0x20" "\<not> is_mark 0x20"
  by (simp_all add: is_space_def is_mark_def)

lemma normalize_no_marks: "c \<in> set (normalize_bill_title U raw) \<Longrightarrow> \<not> is_mark c"
proof (cases "raw = []")
  case True
  assume "c \<in> set (normalize_bill_title U raw)"
  with True show ?thesis by (simp add: normalize_bill_title_def)
next
  case False
  assume c: "c \<in> set (normalize_bill_title U raw)"
  show ?thesis
  proof (cases "c = 0x20")
    case True
    then show ?thesis by (simp add: is_space_facts)
  next
    case False
    from c \<open>raw \<noteq> []\<close> have "c \<in> set (foldl (\<lambda>s sp. str_remove sp s) (before_stop_phrases U raw) STOP_PHRASES)"
      using clean_spaces_set False by (fastforce simp: normalize_bill_title_shape)
    then have "c \<in> set (before_stop_phrases U raw)"
      using foldl_str_remove_set by blast
    then have "c \<in> set (RE_DANGLING_MARKS_sub (RE_PARENS_sub (RE_PREFIX_NUM_sub U
       (map (\<lambda>c. if c = 0x0A then 0x20 else c) (normalize_text U raw)))))"
      using clean_spaces_set False unfolding before_stop_phrases_def by fastforce
    then show ?thesis
      using sub_runs_set [of is_mark "0x20"] False unfolding RE_DANGLING_MARKS_sub_def by fastforce
  qed
qed

lemma normalize_clean: "clean_spaces (normalize_bill_title U raw) = normalize_bill_title U raw"
proof (cases "raw = []")
  case True
  have "clean_spaces [] = []" by (simp add: clean_spaces_def strip_def)
  with True show ?thesis by (simp add: normalize_bill_title_def)
next
  case False
  then show ?thesis by (simp add: normalize_bill_title_shape clean_spaces_idem)
qed

lemma normalize_no_newline: "0x0A \<notin> set (normalize_bill_title U raw)"
proof
  assume "0x0A \<in> set (normalize_bill_title U raw)"
  then have "0x0A \<in> set (clean_spaces (normalize_bill_title U raw))"
    by (simp add: normalize_clean)
  then show False
    using clean_spaces_set [of "normalize_bill_title U raw"] is_space_facts(1) by auto
qed


section \<open>Tokens, counters and ranking\<close>

lemma findall_runs_skip:
  "\<forall>c \<in> set g. \<not> P c \<Longrightarrow> findall_runs P (g @ s) = findall_runs P s"
  by (induction g) simp_all

lemma findall_runs_none: "\<forall>c \<in> set t. \<not> P c \<Longrightarrow> findall_runs P t = []"
  using findall_runs_skip [of t P "[]"] by simp

lemma findall_runs_take:
  assumes "w \<noteq> []" and "\<forall>c \<in> set w. P c" and "r = [] \<or> \<not> P (hd r)"
  shows "findall_runs P (w @ r) = w # findall_runs P r"
proof -
  from assms(1) obtain c w' where w: "w = c # w'" by (cases w) auto
  have tw: "takeWhile P r = []" using assms(3) by (cases r) auto
  have dw: "dropWhile P r = r" using assms(3) by (cases r) auto
  have t: "takeWhile P (w' @ r) = w'" using assms(2) tw by (simp add: w takeWhile_append2)
  have d: "dropWhile P (w' @ r) = r" using assms(2) dw by (simp add: w dropWhile_append2)
  show ?thesis using assms(2) by (simp add: w t d)
qed

lemma findall_runs_first:
  assumes "\<forall>c \<in> set g. \<not> P c" and "w \<noteq> []" and "\<forall>c \<in> set w. P c" and "r = [] \<or> \<not> P (hd r)"
  shows "findall_runs P (g @ w @ r) = w # findall_runs P r"
  by (simp add: findall_runs_skip [OF assms(1)] findall_runs_take [OF assms(2,3,4)])

lemma first_seen_snoc:
  "first_seen (ws @ [w]) = (if w \<in> set ws then first_seen ws else first_seen ws @ [w])"
  by (simp add: first_seen_def)

lemma first_seen_set: "set (first_seen ws) = set ws"
  by (simp add: first_seen_def)

lemma first_seen_distinct: "distinct (first_seen ws)"
  by (simp add: first_seen_def)

lemma first_seen_length: "length (first_seen ws) = card (set ws)"
  by (simp add: first_seen_def length_remdups_card_conv)

lemma first_index_less: "a \<in> set xs \<Longrightarrow> first_index xs a < length xs"
  unfolding first_index_def by (induction xs) auto

lemma first_index_append: "a \<in> set xs \<Longrightarrow> first_index (xs @ ys) a = first_index xs a"
  unfolding first_index_def by (induction xs) auto

lemma first_index_new: "a \<notin> set xs \<Longrightarrow> first_index (xs @ [a]) a = length xs"
  unfolding first_index_def by (induction xs) auto

lemma first_seen_sorted:
  "sorted_wrt (\<lambda>a b. first_index ws a < first_index ws b) (first_seen ws)"
proof (induction ws rule: rev_induct)
  case Nil
  then show ?case by (simp add: first_seen_def)
next
  case (snoc w ws)
  have old: "sorted_wrt (\<lambda>a b. first_index (ws @ [w]) a < first_index (ws @ [w]) b) (first_seen ws)"
    by (rule sorted_wrt_mono_rel [OF _ snoc.IH]) (simp add: first_seen_set first_index_append)
  show ?case
  proof (cases "w \<in> set ws")
    case True
    then show ?thesis using old by (simp add: first_seen_snoc)
  next
    case False
    have "\<forall>a \<in> set (first_seen ws). first_index (ws @ [w]) a < first_index (ws @ [w]) w"
      using False by (simp add: first_seen_set first_index_append first_index_new first_index_less)
    then show ?thesis using old False by (simp add: first_seen_snoc sorted_wrt_append)
  qed
qed

lemma counter_add_map:
  "distinct ks \<Longrightarrow>
   counter_add w (map (\<lambda>v. (v, c v)) ks) =
     (if w \<in> set ks then map (\<lambda>v. (v, if v = w then c v + 1 else c v)) ks
      else map (\<lambda>v. (v, c v)) ks @ [(w, 1)])"
  by (induction ks) auto

lemma Counter_snoc: "Counter (ws @ [w]) = counter_add w (Counter ws)"
  by (simp add: Counter_def)

lemma Counter_closed: "Counter ws = map (\<lambda>v. (v, count_list ws v)) (first_seen ws)"
proof (induction ws rule: rev_induct)
  case Nil
  then show ?case by (simp add: Counter_def first_seen_def)
next
  case (snoc w ws)
  show ?case
  proof (cases "w \<in> set ws")
    case True
    then show ?thesis
      by (simp add: Counter_snoc snoc.IH counter_add_map first_seen_distinct first_seen_set
          first_seen_snoc)
  next
    case False
    then have "map (\<lambda>v. (v, count_list ws v)) (first_seen ws) =
        map (\<lambda>v. (v, count_list (ws @ [w]) v)) (first_seen ws)"
      by (auto simp: first_seen_set)
    then show ?thesis using False
      by (simp add: Counter_snoc snoc.IH counter_add_map first_seen_distinct first_seen_set
          first_seen_snoc count_list_0_iff)
  qed
qed

lemma insort_key_map:
  "insort_key f (g x) (map g xs) = map g (insort_key (\<lambda>a. f (g a)) x xs)"
  by (induction xs) simp_all

lemma sort_key_map: "sort_key f (map g xs) = map g (sort_key (\<lambda>a. f (g a)) xs)"
  by (induction xs) (simp_all add: insort_key_map)

lemma most_common_Counter:
  "map fst (most_common (Counter kept) n) = take (nat n) (ranked kept)"
proof -
  show ?thesis
    by (simp add: most_common_def Counter_closed sort_key_map ranked_def take_map comp_def)
qed

lemma insort_key_lex:
  fixes f :: "'a \<Rightarrow> int"
  assumes "\<forall>y \<in> set ys. R x y"
    and "sorted_wrt (\<lambda>a b. f a < f b \<or> (f a = f b \<and> R a b)) ys"
  shows "sorted_wrt (\<lambda>a b. f a < f b \<or> (f a = f b \<and> R a b)) (insort_key f x ys)"
  using assms
proof (induction ys)
  case Nil
  then show ?case by simp
next
  case (Cons y ys)
  show ?case
  proof (cases "f x \<le> f y")
    case True
    have "\<forall>z \<in> set (y # ys). f x < f z \<or> (f x = f z \<and> R x z)"
      using True Cons.prems by fastforce
    then show ?thesis using True Cons.prems(2) by simp
  next
    case False
    have ih: "sorted_wrt (\<lambda>a b. f a < f b \<or> (f a = f b \<and> R a b)) (insort_key f x ys)"
      using Cons.IH Cons.prems by simp
    have "\<forall>z \<in> set (insort_key f x ys). f y < f z \<or> (f y = f z \<and> R y z)"
      using False Cons.prems(2) by (auto simp: set_insort_key)
    then show ?thesis using False ih by simp
  qed
qed

lemma sort_key_lex:
  fixes f :: "'a \<Rightarrow> int"
  assumes "sorted_wrt R xs"
  shows "sorted_wrt (\<lambda>a b. f a < f b \<or> (f a = f b \<and> R a b)) (sort_key f xs)"
  using assms
proof (induction xs)
  case Nil
  then show ?case by simp
next
  case (Cons x xs)
  have "\<forall>y \<in> set (sort_key f xs). R x y" using Cons.prems by simp
  moreover have "sorted_wrt (\<lambda>a b. f a < f b \<or> (f a = f b \<and> R a b)) (sort_key f xs)"
    using Cons by simp
  ultimately show ?case by (simp add: insort_key_lex)
qed

lemma ranked_sorted: "sorted_wrt (ranks_before kept) (ranked kept)"
proof -
  have "sorted_wrt (\<lambda>a b. - int (count_list kept a) < - int (count_list kept b) \<or>
          (- int (count_list kept a) = - int (count_list kept b) \<and>
           first_index kept a < first_index kept b)) (ranked kept)"
    unfolding ranked_def by (rule sort_key_lex [OF first_seen_sorted])
  then show ?thesis
    by (rule sorted_wrt_mono_rel [rotated]) (auto simp: ranks_before_def)
qed

lemma ranked_set: "set (ranked kept) = set kept"
  by (simp add: ranked_def first_seen_set)

lemma ranked_distinct: "distinct (ranked kept)"
  by (simp add: ranked_def first_seen_distinct)

lemma ranked_length: "length (ranked kept) = card (set kept)"
  by (simp add: ranked_def first_seen_length)

lemma ranked_take_top:
  assumes "v \<in> set (take n (ranked kept))" and "w \<in> set kept - set (take n (ranked kept))"
  shows "ranks_before kept v w"
proof -
  have "w \<in> set (take n (ranked kept) @ drop n (ranked kept))"
    using assms(2) by (simp add: ranked_set)
  then have "w \<in> set (take n (ranked kept)) \<union> set (drop n (ranked kept))"
    unfolding set_append .
  then have w: "w \<in> set (drop n (ranked kept))" using assms(2) by blast
  have "sorted_wrt (ranks_before kept) (take n (ranked kept) @ drop n (ranked kept))"
    by (simp add: ranked_sorted)
  then show ?thesis using assms(1) w unfolding sorted_wrt_append by blast
qed

lemma extract_keywords_ranked_eq:
  "extract_keywords_from_bill U title topk =
     take (nat topk) (ranked (filter (\<lambda>tok. \<not> length tok \<le> 1 \<and> tok \<notin> set BILL_STOP_TOKENS)
        (findall_runs is_token_char (normalize_text U title))))"
  by (simp add: extract_keywords_from_bill_def Let_def most_common_Counter)


section \<open>Substrings, the first related bill, and the loop over the records\<close>

lemma three_bills_names:
  "map (get_bill_name plain_unicode) three_bills = [asc ''Tax Act'', asc ''Road Act'', asc ''Road Act'']"
  by code_simp

lemma startswith_rest_append: "startswith_rest p (p @ r) = Some r"
  by (induction p) simp_all

lemma startswith_rest_iff: "startswith_rest p s \<noteq> None \<longleftrightarrow> (\<exists>r. s = p @ r)"
  using startswith_rest_eq startswith_rest_append by fastforce

lemma str_in_iff: "str_in a b \<longleftrightarrow> (\<exists>p s. b = p @ a @ s)"
proof (induction b)
  case Nil
  then show ?case by auto
next
  case (Cons c cs)
  show ?case
  proof
    assume "str_in a (c # cs)"
    then consider "startswith_rest a (c # cs) \<noteq> None" | "str_in a cs" by auto
    then show "\<exists>p s. c # cs = p @ a @ s"
    proof cases
      case 1
      then obtain r where "c # cs = a @ r" unfolding startswith_rest_iff by blast
      then have "c # cs = [] @ a @ r" by simp
      then show ?thesis by blast
    next
      case 2
      then obtain p s where "cs = p @ a @ s" using Cons.IH by blast
      then have "c # cs = (c # p) @ a @ s" by simp
      then show ?thesis by blast
    qed
  next
    assume "\<exists>p s. c # cs = p @ a @ s"
    then obtain p s where ps: "c # cs = p @ a @ s" by blast
    show "str_in a (c # cs)"
    proof (cases p)
      case Nil
      then have "startswith_rest a (c # cs) \<noteq> None"
        using ps unfolding startswith_rest_iff by auto
      then show ?thesis by simp
    next
      case (Cons d p')
      then have "cs = p' @ a @ s" using ps by simp
      then have "str_in a cs" using Cons.IH by blast
      then show ?thesis by simp
    qed
  qed
qed

lemma find_first:
  "xs = pre @ x # post \<Longrightarrow> P x \<Longrightarrow> \<forall>y \<in> set pre. \<not> P y \<Longrightarrow> find P xs = Some x"
  by (induction pre arbitrary: xs) auto

lemma find_none: "\<forall>y \<in> set xs. \<not> P y \<Longrightarrow> find P xs = None"
  by (induction xs) auto

lemma find_most_relevant_bill_first:
  assumes "bill_list = pre @ ob # post"
    and "strip content = ob \<or> str_in (strip content) ob \<or> str_in ob (strip content)"
    and "\<forall>c \<in> set pre. \<not> (strip content = c \<or> str_in (strip content) c \<or> str_in c (strip content))"
  shows "find_most_relevant_bill (Reply content) spoken bill_list = (Some ob, [])"
  using find_first [OF assms(1), of "\<lambda>b. strip content = b \<or> str_in (strip content) b \<or> str_in b (strip content)"]
    assms(2,3)
  by (simp add: find_most_relevant_bill_def Let_def)

lemma find_most_relevant_bill_none:
  assumes "\<forall>c \<in> set bill_list. \<not> (strip content = c \<or> str_in (strip content) c \<or> str_in c (strip content))"
    and "bill_list \<noteq> []"
  shows "find_most_relevant_bill (Reply content) spoken bill_list =
           (Some (hd bill_list), [Reply_not_listed (strip content)])"
  using find_none [of bill_list "\<lambda>b. strip content = b \<or> str_in (strip content) b \<or> str_in b (strip content)"]
    assms
  by (cases bill_list) (simp_all add: find_most_relevant_bill_def Let_def)

lemma process_speech_total:
  assumes "bills r \<noteq> Null" and "speech_id r \<noteq> Absent"
  shows "\<exists>r' lg. process_speech U n i outcome r = Inr (r', lg)"
  using assms
  by (cases "bills r"; cases "speech_id r")
     (simp_all add: process_speech_def Let_def split_beta)

lemma find_most_relevant_bill_failure:
  "find_most_relevant_bill Failure spoken bill_list = (None, [Api_call_error])"
  by (simp add: find_most_relevant_bill_def)

lemma process_speech_failure:
  assumes "bills r \<noteq> Null" and "speech_id r \<noteq> Absent"
  shows "\<exists>lg. process_speech U n i Failure r = Inr (r, lg)"
  using assms
  by (cases "bills r"; cases "speech_id r")
     (simp_all add: process_speech_def Let_def find_most_relevant_bill_failure)

lemma process_loop_records:
  assumes "\<forall>r \<in> set rs. bills r \<noteq> Null \<and> speech_id r \<noteq> Absent"
  shows "\<exists>out logs. process_loop U llm n i rs = Inr (out, logs) \<and> length out = length rs \<and>
           (\<forall>j < length rs. \<exists>lg. process_speech U n (i + j) (llm (i + j)) (rs ! j) = Inr (out ! j, lg))"
  using assms
proof (induction rs arbitrary: i)
  case Nil
  then show ?case by simp
next
  case (Cons r rs)
  from Cons.prems obtain r' lg where r': "process_speech U n i (llm i) r = Inr (r', lg)"
    using process_speech_total [of r U n i "llm i"] by auto
  from Cons.IH [of "Suc i"] Cons.prems obtain out logs where
    out: "process_loop U llm n (Suc i) rs = Inr (out, logs)" "length out = length rs"
      "\<forall>j < length rs. \<exists>lg. process_speech U n (Suc i + j) (llm (Suc i + j)) (rs ! j) = Inr (out ! j, lg)"
    by auto
  have "\<forall>j < length (r # rs). \<exists>lg. process_speech U n (i + j) (llm (i + j)) ((r # rs) ! j) = Inr ((r' # out) ! j, lg)"
  proof (intro allI impI)
    fix j assume "j < length (r # rs)"
    then show "\<exists>lg. process_speech U n (i + j) (llm (i + j)) ((r # rs) ! j) = Inr ((r' # out) ! j, lg)"
      using r' out(3) by (cases j) auto
  qed
  then show ?case using r' out(1,2) by simp
qed

lemma process_speech_error_independent:
  "process_speech U n i outcome r = Inl e \<longleftrightarrow> process_speech U n i outcome' r = Inl e"
  by (cases "bills r"; cases "speech_id r")
     (simp_all add: process_speech_def Let_def split_beta)

lemma process_speech_error_cases:
  "(\<exists>e. process_speech U n i outcome r = Inl e) \<or> (\<exists>r' lg. process_speech U n i outcome r = Inr (r', lg))"
  by (cases "process_speech U n i outcome r") auto

lemma process_loop_error_independent:
  "process_loop U llm n i rs = Inl e \<longleftrightarrow> process_loop U llm' n i rs = Inl e"
proof (induction rs arbitrary: i)
  case Nil
  then show ?case by simp
next
  case (Cons r rs)
  show ?case
  proof (cases "process_speech U n i (llm i) r")
    case (Inl e')
    then have "process_speech U n i (llm' i) r = Inl e'"
      using process_speech_error_independent by blast
    with Inl show ?thesis by simp
  next
    case (Inr p)
    then obtain p' where p': "process_speech U n i (llm' i) r = Inr p'"
      using process_speech_error_independent [of U n i "llm' i" r _ "llm i"]
      by (cases "process_speech U n i (llm' i) r") auto
    show ?thesis
      using Inr p' Cons.IH [of "Suc i"]
      by (cases p; cases p'; cases "process_loop U llm n (Suc i) rs";
          cases "process_loop U llm' n (Suc i) rs") auto
  qed
qed

lemma process_speeches_error_independent:
  "process_speeches U llm speeches = Inl e \<longleftrightarrow> process_speeches U llm' speeches = Inl e"
  unfolding process_speeches_def by (rule process_loop_error_independent)

lemma process_speech_failure_unchanged:
  "process_speech U n i Failure r = Inr (r', lg) \<Longrightarrow> r' = r"
  by (cases "bills r"; cases "speech_id r")
     (auto simp: process_speech_def Let_def find_most_relevant_bill_failure split: if_splits)

lemma process_loop_returned:
  "process_loop U llm n i rs = Inr (out, logs) \<Longrightarrow>
   length out = length rs \<and>
   (\<forall>j < length rs. \<exists>lg. process_speech U n (i + j) (llm (i + j)) (rs ! j) = Inr (out ! j, lg))"
proof (induction rs arbitrary: i out logs)
  case Nil
  then show ?case by simp
next
  case (Cons r rs)
  from Cons.prems obtain r' lg out' logs' where
    r': "process_speech U n i (llm i) r = Inr (r', lg)"
    and rest: "process_loop U llm n (Suc i) rs = Inr (out', logs')"
    and out: "out = r' # out'"
    by (auto split: sum.splits prod.splits)
  from Cons.IH [OF rest] have
    ih: "length out' = length rs"
      "\<forall>j < length rs. \<exists>lg. process_speech U n (Suc i + j) (llm (Suc i + j)) (rs ! j) = Inr (out' ! j, lg)"
    by simp_all
  have "\<forall>j < length (r # rs). \<exists>lg. process_speech U n (i + j) (llm (i + j)) ((r # rs) ! j) = Inr ((r' # out') ! j, lg)"
  proof (intro allI impI)
    fix j assume "j < length (r # rs)"
    then show "\<exists>lg. process_speech U n (i + j) (llm (i + j)) ((r # rs) ! j) = Inr ((r' # out') ! j, lg)"
      using r' ih(2) by (cases j) auto
  qed
  then show ?case using ih(1) out by simp
qed

lemma process_speech_null_bills:
  "bills r = Null \<Longrightarrow> process_speech U n i outcome r = Inl AttributeError"
  by (simp add: process_speech_def)

lemma null_bills_raises:
  "process_speeches plain_unicode llm [speech_three, speech_null_bills] = Inl AttributeError"
proof -
  have "bills speech_three \<noteq> Null" "speech_id speech_three \<noteq> Absent"
    by (simp_all add: speech_three_def)
  from process_speech_total [OF this, of plain_unicode "Suc (Suc 0)" 0 "llm 0"] obtain r' lg where
    a: "process_speech plain_unicode (Suc (Suc 0)) 0 (llm 0) speech_three = Inr (r', lg)" by blast
  have b: "process_speech plain_unicode (Suc (Suc 0)) (Suc 0) (llm (Suc 0)) speech_null_bills = Inl AttributeError"
    by (rule process_speech_null_bills) (simp add: speech_null_bills_def)
  show ?thesis
    by (simp add: process_speeches_def a b)
qed


section \<open>Enumeration prefix, trailing parenthetical, and the registry\<close>


























text \<open>
  The two titles of the example, evaluated: the summary and the registry that
  \<open>collect_bills_and_keywords\<close> returns for a transcript that mentions both.
\<close>

lemma registry_dedup_evaluated:
  "normalize_bill_title plain_unicode title_enumerated = title_canonical \<and>
   normalize_bill_title plain_unicode title_plain = title_canonical \<and>
   collect_bills_and_keywords plain_unicode dedup_transcript =
     ([\<lparr> canonical = title_canonical,
          summary_raw_variants = [title_enumerated, title_plain],
          summary_keywords = [title_canonical] \<rparr>],
      [(title_canonical,
        \<lparr> raw_variants = [title_plain, title_enumerated],
          bill_keywords = [title_canonical],
          patterns = [SpacedPat title_canonical, SpacedPat title_canonical] \<rparr>)])"
  by code_simp








lemma double_spaced_mention_stored_clean:
  "map (raw_variants \<circ> snd)
     (snd (collect_bills_and_keywords plain_unicode
        [\<lparr> speech_id = Val 1, member_name = Val (asc ''kim''), bills = Val title_double_spaced,
           speech_text = Val [] \<rparr>])) = [[title_plain]] \<and>
   title_double_spaced \<noteq> title_plain"
  by code_simp

section \<open>The claims on the resolver\<close>

text \<open>
  C1.  Claimed: an utterance whose text scores \<open>(0, 0)\<close> against every bill, whose bill
  field yields no known candidate, and that comes first (no prior state) gets
  \<open>assigned_bill = null\<close>, confidence \<open>0.0\<close> and reason \<open>no-match\<close>.

  The code does not do that.  The first record of the example transcript is such an
  utterance; the loop of \<open>choose_by_score\<close> starts from \<open>(-1, -1)\<close> and compares
  strictly, so the score \<open>(0, 0)\<close> of the first bill of the registry wins and that bill is
  assigned, with confidence \<open>0.0\<close> and reason \<open>text-match(hard=0, soft=0)\<close>.  With an empty
  registry the pick is null, but the reason \<open>no-match\<close> that \<open>choose_by_score\<close> returns
  is dropped by the caller and the reason written is the empty string.
\<close>

theorem first_utterance_without_evidence:
  "example_transcript ! 0 = speech_plain \<and>
   speech_text speech_plain = Val (asc ''hello'') \<and>
   field_candidates plain_unicode example_registry speech_plain = [] \<and>
   score_text_for_bill plain_unicode (asc ''hello'') (snd (example_registry ! 0)) = (0, 0) \<and>
   score_text_for_bill plain_unicode (asc ''hello'') (snd (example_registry ! 1)) = (0, 0) \<and>
   bill_assigned (assign_bills_to_speeches plain_unicode example_transcript example_registry ! 0) = Some (asc ''Tax Act'') \<and>
   bill_confidence (assign_bills_to_speeches plain_unicode example_transcript example_registry ! 0) = 0 \<and>
   bill_reason (assign_bills_to_speeches plain_unicode example_transcript example_registry ! 0) = asc ''text-match(hard=0, soft=0)'' \<and>
   bill_assigned (hd (assign_bills_to_speeches plain_unicode [speech_plain] [])) = None \<and>
   bill_reason (hd (assign_bills_to_speeches plain_unicode [speech_plain] [])) = []"
proof -
  have a: "example_transcript ! 0 = speech_plain" "speech_text speech_plain = Val (asc ''hello'')"
    by (simp_all add: example_transcript_def speech_plain_def)
  have s: "score_text_for_bill plain_unicode (asc ''hello'') (snd (example_registry ! 0)) = (0, 0)"
      "score_text_for_bill plain_unicode (asc ''hello'') (snd (example_registry ! 1)) = (0, 0)"
    using example_scores_hello by (simp_all add: example_registry_def)
  have e: "bill_assigned (hd (assign_bills_to_speeches plain_unicode [speech_plain] [])) = None"
     "bill_reason (hd (assign_bills_to_speeches plain_unicode [speech_plain] [])) = []"
    by code_simp+
  show ?thesis
    using a s e example_candidates(1) example_nth [of 0] example_outputs(1) by simp
qed

text \<open>
  C2.  Claimed: tier 1 selects the bill with the greatest \<open>(hard, soft)\<close>, the first one
  among equals, with confidence 0.9, 0.6, 0.4 by the score, and \<open>0.0\<close> (no pick) otherwise.

  The selection and the confidences are as claimed (\<open>best_by_score_first_max\<close>), but at the
  score \<open>(0, 0)\<close> the code does pick: \<open>choose_by_score\<close> returns the first bill of the
  registry with confidence \<open>0.0\<close>, and step 2 of the loop takes it as the pick.
\<close>

theorem text_match_picks_at_zero_score:
  "best_by_score plain_unicode (asc ''hello'') example_registry = (Some (asc ''Tax Act''), (0, 0)) \<and>
   choose_by_score plain_unicode example_registry (asc ''hello'') =
     (Some (asc ''Tax Act''), 0, asc ''hard=0, soft=0'') \<and>
   step2_text_score plain_unicode example_registry (asc ''hello'') =
     (Some (asc ''Tax Act''), 0, asc ''text-match(hard=0, soft=0)'')"
  by code_simp

text \<open>
  C3.  Claimed: when tiers 1 and 2 yield no pick and \<open>last_agenda_bill\<close> is set, the
  utterance gets that bill with confidence 0.5 and reason \<open>agenda-flow\<close>.

  In the example the third record is assigned \<open>Road Act\<close> with confidence 0.9, which
  becomes the agenda bill; the fourth record has no field and no overlap.  It is not given
  \<open>Road Act\<close> by agenda flow: step 2 has already picked the first bill of the registry,
  \<open>Tax Act\<close>, at score \<open>(0, 0)\<close>, so step 4 is not entered.
\<close>

theorem agenda_flow_not_reached:
  "example_transcript ! 2 = speech_road \<and> example_transcript ! 3 = speech_after \<and>
   bill_assigned (assign_bills_to_speeches plain_unicode example_transcript example_registry ! 2) = Some (asc ''Road Act'') \<and>
   bill_confidence (assign_bills_to_speeches plain_unicode example_transcript example_registry ! 2) = 0.9 \<and>
   last_agenda_canon (run_state plain_unicode example_registry initial_state (take 3 example_transcript)) = Some (asc ''Road Act'') \<and>
   speech_text speech_after = Val (asc ''hello'') \<and>
   field_candidates plain_unicode example_registry speech_after = [] \<and>
   score_text_for_bill plain_unicode (asc ''hello'') (snd (example_registry ! 0)) = (0, 0) \<and>
   score_text_for_bill plain_unicode (asc ''hello'') (snd (example_registry ! 1)) = (0, 0) \<and>
   bill_assigned (assign_bills_to_speeches plain_unicode example_transcript example_registry ! 3) = Some (asc ''Tax Act'') \<and>
   bill_confidence (assign_bills_to_speeches plain_unicode example_transcript example_registry ! 3) = 0 \<and>
   bill_reason (assign_bills_to_speeches plain_unicode example_transcript example_registry ! 3) = asc ''text-match(hard=0, soft=0)''"
proof -
  have a: "example_transcript ! 2 = speech_road" "example_transcript ! 3 = speech_after"
     "speech_text speech_after = Val (asc ''hello'')"
    by (simp_all add: example_transcript_def speech_after_def)
  have s: "score_text_for_bill plain_unicode (asc ''hello'') (snd (example_registry ! 0)) = (0, 0)"
      "score_text_for_bill plain_unicode (asc ''hello'') (snd (example_registry ! 1)) = (0, 0)"
    using example_scores_hello by (simp_all add: example_registry_def)
  have t: "take 3 example_transcript = [speech_plain, speech_tax] @ [speech_road]"
    by (simp add: example_transcript_def)
  have l: "last_agenda_canon (run_state plain_unicode example_registry initial_state (take 3 example_transcript)) = Some (asc ''Road Act'')"
    unfolding t run_state_snoc
    using label_speech_agenda [of example_registry plain_unicode _ speech_road] example_registry_ok
    by (simp add: example_outputs(2))
  have o2: "bill_assigned (assign_bills_to_speeches plain_unicode example_transcript example_registry ! 2) = Some (asc ''Road Act'')"
      "bill_confidence (assign_bills_to_speeches plain_unicode example_transcript example_registry ! 2) = 0.9"
    using example_nth [of 2] by (simp_all add: a example_outputs(2))
  have o3: "bill_assigned (assign_bills_to_speeches plain_unicode example_transcript example_registry ! 3) = Some (asc ''Tax Act'')"
      "bill_confidence (assign_bills_to_speeches plain_unicode example_transcript example_registry ! 3) = 0"
      "bill_reason (assign_bills_to_speeches plain_unicode example_transcript example_registry ! 3) = asc ''text-match(hard=0, soft=0)''"
    using example_nth [of 3] by (simp_all add: a example_outputs(3))
  show ?thesis
    by (intro conjI a s l o2 o3 example_candidates(2))
qed

text \<open>
  C4.  Claimed: with at least one bill in the registry every utterance gets a non-null
  bill (at score \<open>(0, 0)\<close> everywhere the first bill of the registry, with confidence
  \<open>0.0\<close> and reason \<open>text-match(hard=0, soft=0)\<close>), so that the agenda-flow,
  speaker-history and no-match outcomes need an empty registry.

  As stated this fails when the record's own field names a known bill: the fifth record
  of the example scores \<open>(0, 0)\<close> against both bills, and step 3 gives it the bill of its
  field, \<open>Road Act\<close>, with confidence 0.6, not the first bill of the registry.
\<close>

theorem first_registry_bill_counterexample:
  "example_registry = snd (collect_bills_and_keywords plain_unicode example_transcript) \<and>
   example_registry \<noteq> [] \<and> length example_registry = 2 \<and>
   fst (hd example_registry) = asc ''Tax Act'' \<and>
   speech_text (example_transcript ! 4) = Val (asc ''hello'') \<and>
   score_text_for_bill plain_unicode (asc ''hello'') (snd (example_registry ! 0)) = (0, 0) \<and>
   score_text_for_bill plain_unicode (asc ''hello'') (snd (example_registry ! 1)) = (0, 0) \<and>
   bill_assigned (assign_bills_to_speeches plain_unicode example_transcript example_registry ! 4) =
     Some (asc ''Road Act'') \<and>
   bill_confidence (assign_bills_to_speeches plain_unicode example_transcript example_registry ! 4) = 0.6 \<and>
   bill_reason (assign_bills_to_speeches plain_unicode example_transcript example_registry ! 4) =
     asc ''bills-field-candidate + text(0,0)''"
proof -
  have h1: "example_registry = snd (collect_bills_and_keywords plain_unicode example_transcript)"
    by (simp add: example_registry_collect)
  have h2: "example_registry \<noteq> []" "length example_registry = 2"
      "fst (hd example_registry) = asc ''Tax Act''"
    by (simp_all add: example_registry_def)
  have r: "example_transcript ! 4 = speech_field_only" by (simp add: example_transcript_def)
  have t: "speech_text (example_transcript ! 4) = Val (asc ''hello'')"
    by (simp add: r speech_field_only_def)
  have s: "score_text_for_bill plain_unicode (asc ''hello'') (snd (example_registry ! 0)) = (0, 0)"
      "score_text_for_bill plain_unicode (asc ''hello'') (snd (example_registry ! 1)) = (0, 0)"
    using example_scores_hello by (simp_all add: example_registry_def)
  have o: "bill_assigned (assign_bills_to_speeches plain_unicode example_transcript example_registry ! 4) = Some (asc ''Road Act'')"
      "bill_confidence (assign_bills_to_speeches plain_unicode example_transcript example_registry ! 4) = 0.6"
      "bill_reason (assign_bills_to_speeches plain_unicode example_transcript example_registry ! 4) = asc ''bills-field-candidate + text(0,0)''"
    using example_nth [of 4] by (simp_all add: r example_outputs(4))
  show ?thesis
    by (intro conjI h1 h2 t s o)
qed

text \<open>
  C4, amended.  For a registry built by \<open>collect_bills_and_keywords\<close> that is not empty,
  every record of every transcript gets a non-null bill, and its reason is none of
  \<open>agenda-flow\<close>, \<open>speaker-history\<close>, \<open>no-match\<close> or the empty reason of a null pick.
  When the text scores \<open>(0, 0)\<close> against every bill: without a known candidate in the
  field, the first bill of the registry is assigned with confidence \<open>0.0\<close> and reason
  \<open>text-match(hard=0, soft=0)\<close>; with known candidates, the first candidate is assigned
  with confidence 0.6 and reason \<open>bills-field-candidate + text(0,0)\<close>.
\<close>

theorem nonempty_registry_always_assigns:
  assumes "bill_map = snd (collect_bills_and_keywords U transcript)"
    and "bill_map \<noteq> []" and "i < length speeches"
  shows "let rec = speeches ! i;
             text = or_empty (dict_get (speech_text rec));
             out = assign_bills_to_speeches U speeches bill_map ! i
         in bill_assigned out \<noteq> None \<and>
            bill_reason out \<noteq> asc ''agenda-flow'' \<and>
            bill_reason out \<noteq> asc ''speaker-history'' \<and>
            bill_reason out \<noteq> asc ''no-match'' \<and>
            bill_reason out \<noteq> [] \<and>
            ((\<forall>e \<in> snd ` set bill_map. score_text_for_bill U text e = (0, 0)) \<longrightarrow>
               (case field_candidates U bill_map rec of
                  [] \<Rightarrow> bill_assigned out = Some (fst (hd bill_map)) \<and>
                        bill_confidence out = 0 \<and>
                        bill_reason out = asc ''text-match(hard=0, soft=0)''
                | c # cs \<Rightarrow> bill_assigned out = Some c \<and>
                        bill_confidence out = 0.6 \<and>
                        bill_reason out = asc ''bills-field-candidate + text(0,0)''))"
proof -
  let ?rec = "speeches ! i"
  let ?text = "or_empty (dict_get (speech_text ?rec))"
  let ?out = "assign_bills_to_speeches U speeches bill_map ! i"
  have keys: "keys_nonempty bill_map"
    unfolding assms(1) by (rule collect_keys_nonempty)
  have out: "?out = snd (label_speech U bill_map initial_state ?rec)"
    by (rule assign_nth_stateless [OF assms(2) keys assms(3)])
  from resolve_pick_nonempty [OF assms(2) keys, of U initial_state ?rec]
  obtain c conf why where
    rp: "resolve_pick U bill_map initial_state ?rec = (Some c, conf, why)"
    and ev: "evidence_reason why"
    by blast
  have fields: "bill_assigned ?out = Some c" "bill_reason ?out = why"
    unfolding out label_speech_fields [OF rp] by simp_all
  have part1: "bill_assigned ?out \<noteq> None \<and> bill_reason ?out \<noteq> asc ''agenda-flow'' \<and>
      bill_reason ?out \<noteq> asc ''speaker-history'' \<and> bill_reason ?out \<noteq> asc ''no-match'' \<and>
      bill_reason ?out \<noteq> []"
    using evidence_reason_distinct [OF ev] fields by simp
  have part2: "case field_candidates U bill_map ?rec of
        [] \<Rightarrow> bill_assigned ?out = Some (fst (hd bill_map)) \<and> bill_confidence ?out = 0 \<and>
              bill_reason ?out = asc ''text-match(hard=0, soft=0)''
      | c # cs \<Rightarrow> bill_assigned ?out = Some c \<and> bill_confidence ?out = 0.6 \<and>
              bill_reason ?out = asc ''bills-field-candidate + text(0,0)''"
    if zero: "\<forall>e \<in> snd ` set bill_map. score_text_for_bill U ?text e = (0, 0)"
  proof -
    obtain k0 e0 rest where bm: "bill_map = (k0, e0) # rest"
      using assms(2) by (cases bill_map) auto
    have k0: "k0 \<noteq> []" using keys bm by (auto simp: keys_nonempty_def)
    have first: "fst (hd bill_map) = k0" using bm by simp
    show ?thesis
    proof (cases "field_candidates U bill_map ?rec")
      case Nil
      have "resolve_pick U bill_map initial_state ?rec = (Some k0, 0, asc ''text-match(hard=0, soft=0)'')"
        by (rule resolve_pick_all_zero [OF bm k0 zero Nil])
      from label_speech_fields [OF this] show ?thesis
        unfolding out by (simp add: Nil first round2_consts)
    next
      case (Cons c0 cs)
      have "resolve_pick U bill_map initial_state ?rec =
              (Some c0, 0.6, asc ''bills-field-candidate + text(0,0)'')"
        by (rule resolve_pick_all_zero_candidates [OF bm keys zero Cons])
      from label_speech_fields [OF this] show ?thesis
        unfolding out using round2_consts(5) by (simp add: Cons)
    qed
  qed
  show ?thesis
    unfolding Let_def using part1 part2 by blast
qed

theorem nonempty_registry_always_assigns_witness:
  "example_registry = snd (collect_bills_and_keywords plain_unicode example_transcript) \<and>
   example_registry \<noteq> [] \<and> (3::nat) < length example_transcript \<and>
   score_text_for_bill plain_unicode (asc ''hello'') (snd (example_registry ! 0)) = (0, 0) \<and>
   score_text_for_bill plain_unicode (asc ''hello'') (snd (example_registry ! 1)) = (0, 0) \<and>
   length example_registry = 2 \<and>
   field_candidates plain_unicode example_registry (example_transcript ! 3) = [] \<and>
   bill_assigned (assign_bills_to_speeches plain_unicode example_transcript example_registry ! 3) =
     Some (asc ''Tax Act'') \<and>
   bill_confidence (assign_bills_to_speeches plain_unicode example_transcript example_registry ! 3) = 0 \<and>
   bill_reason (assign_bills_to_speeches plain_unicode example_transcript example_registry ! 3) =
     asc ''text-match(hard=0, soft=0)''"
proof -
  have h1: "example_registry = snd (collect_bills_and_keywords plain_unicode example_transcript)"
    by (simp add: example_registry_collect)
  have h2: "example_registry \<noteq> []" using example_registry_ok by simp
  have h3: "(3::nat) < length example_transcript" by (simp add: example_transcript_def)
  have r: "example_transcript ! 3 = speech_after" by (simp add: example_transcript_def)
  have t: "or_empty (dict_get (speech_text speech_after)) = asc ''hello''"
    by (simp add: speech_after_def)
  have hd: "fst (hd example_registry) = asc ''Tax Act''" "length example_registry = 2"
    by (simp_all add: example_registry_def)
  have s: "score_text_for_bill plain_unicode (asc ''hello'') (snd (example_registry ! 0)) = (0, 0)"
      "score_text_for_bill plain_unicode (asc ''hello'') (snd (example_registry ! 1)) = (0, 0)"
    using example_scores_hello by (simp_all add: example_registry_def)
  show ?thesis
    using nonempty_registry_always_assigns [OF h1 h2 h3] example_scores_hello h1 h2 h3 s
    by (simp add: Let_def r t hd example_candidates(2))
qed

text \<open>
  C9.  For every utterance the resolver processes (\<open>rec\<close>, after any records \<open>recs\<close>
  from the initial state): the attribution is computed on the state before the step; if
  a bill \<open>b\<close> is picked, the state after the step is exactly the old state with
  \<open>last_agenda_canon\<close> set to \<open>b\<close> and the speaker's entry of \<open>last_by_speaker\<close> set to
  \<open>b\<close>; if the pick is null, the state is the old state, unchanged.
\<close>

theorem state_update_after_pick:
  "let st = run_state U bill_map initial_state recs;
       (st', newrec) = label_speech U bill_map st rec
   in newrec = last (assign_bills_to_speeches U (recs @ [rec]) bill_map) \<and>
      st' = run_state U bill_map initial_state (recs @ [rec]) \<and>
      (case bill_assigned newrec of
         None \<Rightarrow> st' = st
       | Some b \<Rightarrow>
           st' = \<lparr> last_agenda_canon = Some b,
                   last_by_speaker = (last_by_speaker st)(dict_get (member_name rec) \<mapsto> b) \<rparr>)"
proof -
  let ?st = "run_state U bill_map initial_state recs"
  have ok: "state_ok ?st"
    by (rule run_state_ok [OF initial_state_ok])
  show ?thesis
    using label_speech_update [OF ok, of U bill_map rec]
    by (simp add: Let_def split_beta assign_snoc_last run_state_snoc)
qed

theorem state_update_after_pick_witness:
  "last_agenda_canon (run_state plain_unicode example_registry initial_state [speech_tax, speech_road]) =
     Some (asc ''Road Act'') \<and>
   last_by_speaker (run_state plain_unicode example_registry initial_state [speech_tax, speech_road])
     (Some (asc ''lee'')) = Some (asc ''Road Act'') \<and>
   run_state plain_unicode [] initial_state [speech_tax, speech_road] =
     run_state plain_unicode [] initial_state [speech_tax]"
proof -
  have b: "bill_assigned (snd (label_speech plain_unicode example_registry
             (run_state plain_unicode example_registry initial_state [speech_tax]) speech_road)) =
           Some (asc ''Road Act'')"
    using label_speech_snd_stateless [of example_registry plain_unicode _ speech_road initial_state]
      example_registry_ok
    by (simp add: example_outputs(2))
  have m: "dict_get (member_name speech_road) = Some (asc ''lee'')"
    by (simp add: speech_road_def)
  have e: "bill_assigned (snd (label_speech plain_unicode []
             (run_state plain_unicode [] initial_state [speech_tax]) speech_road)) = None"
  proof -
    have "fst (resolve_pick plain_unicode [] initial_state speech_tax) = None"
      by code_simp
    then have "run_state plain_unicode [] initial_state [speech_tax] = initial_state"
      by (simp add: run_state_def label_speech_def Let_def step6_update_def split_beta)
    moreover have "bill_assigned (snd (label_speech plain_unicode [] initial_state speech_road)) = None"
      by code_simp
    ultimately show ?thesis by simp
  qed
  have s: "[speech_tax, speech_road] = [speech_tax] @ [speech_road]" by simp
  let ?st1 = "run_state plain_unicode example_registry initial_state [speech_tax]"
  let ?st2 = "run_state plain_unicode example_registry initial_state [speech_tax, speech_road]"
  note T = state_update_after_pick [of plain_unicode example_registry "[speech_tax]" speech_road,
      unfolded Let_def split_beta]
  have A: "fst (label_speech plain_unicode example_registry ?st1 speech_road) = ?st2"
    using conjunct1 [OF conjunct2 [OF T]] by simp
  have B: "fst (label_speech plain_unicode example_registry ?st1 speech_road) =
        \<lparr> last_agenda_canon = Some (asc ''Road Act''),
          last_by_speaker = (last_by_speaker ?st1)(Some (asc ''lee'') \<mapsto> asc ''Road Act'') \<rparr>"
    using conjunct2 [OF conjunct2 [OF T]] by (simp add: b m)
  have st2: "?st2 = \<lparr> last_agenda_canon = Some (asc ''Road Act''),
          last_by_speaker = (last_by_speaker ?st1)(Some (asc ''lee'') \<mapsto> asc ''Road Act'') \<rparr>"
    by (rule trans [OF sym [OF A] B])
  let ?e1 = "run_state plain_unicode [] initial_state [speech_tax]"
  let ?e2 = "run_state plain_unicode [] initial_state [speech_tax, speech_road]"
  note T0 = state_update_after_pick [of plain_unicode "[]" "[speech_tax]" speech_road,
      unfolded Let_def split_beta]
  have A0: "fst (label_speech plain_unicode [] ?e1 speech_road) = ?e2"
    using conjunct1 [OF conjunct2 [OF T0]] by simp
  have B0: "fst (label_speech plain_unicode [] ?e1 speech_road) = ?e1"
    using conjunct2 [OF conjunct2 [OF T0]] by (simp add: e)
  have unchanged: "?e2 = ?e1"
    by (rule trans [OF sym [OF A0] B0])
  show ?thesis
    unfolding st2 using unchanged by simp
qed


section \<open>The claims on the normalizer and the registry\<close>





section \<open>C5: idempotence of the title normalizer\<close>

text \<open>
  C5.  Claimed: the title normalizer is idempotent, for every string \<open>s\<close>
  \<open>normalize_title (normalize_title s) = normalize_title s\<close>.

  As stated this fails: \<open>RE_PREFIX_NUM\<close> removes one enumeration prefix only, so
  \<open>1. 2. ab\<close> normalizes to \<open>2. ab\<close>, and that normalizes to \<open>ab\<close>.
\<close>

theorem normalize_not_idempotent_counterexample:
  "normalize_bill_title plain_unicode (asc ''1. 2. ab'') = asc ''2. ab'' \<and>
   normalize_bill_title plain_unicode (normalize_bill_title plain_unicode (asc ''1. 2. ab'')) = asc ''ab'' \<and>
   normalize_bill_title plain_unicode (normalize_bill_title plain_unicode (asc ''1. 2. ab'')) \<noteq>
     normalize_bill_title plain_unicode (asc ''1. 2. ab'')"
  by code_simp

text \<open>
  C5, amended.  A normalized title \<open>t = normalize_bill_title s\<close> is a fixed point of the
  normalizer whenever the four steps that can expose new material leave it alone: NFKC,
  the removal of one enumeration prefix, the removal of innermost parentheses, and the
  removal of each stop phrase.  The other steps (newlines, dangling marks, whitespace
  cleaning) never change a normalized title.
\<close>

theorem normalize_idempotent_when_settled:
  assumes "t = normalize_bill_title U s"
    and "nfkc U t = t"
    and "RE_PREFIX_NUM_sub U t = t"
    and "RE_PARENS_sub t = t"
    and "\<forall>sp \<in> set STOP_PHRASES. str_remove sp t = t"
  shows "normalize_bill_title U t = t"
proof (cases "t = []")
  case True
  then show ?thesis by (simp add: normalize_bill_title_def)
next
  case False
  have nl: "map (\<lambda>c. if c = 0x0A then 0x20 else c) t = t"
    using normalize_no_newline [of U s] unfolding assms(1) [symmetric]
    by (rule map_replace_absent)
  have marks: "RE_DANGLING_MARKS_sub t = t"
    unfolding RE_DANGLING_MARKS_sub_def
    using normalize_no_marks [of _ U s] unfolding assms(1) [symmetric]
    by (intro sub_runs_keep) blast
  have clean: "clean_spaces t = t"
    unfolding assms(1) by (rule normalize_clean)
  have stops: "foldl (\<lambda>s sp. str_remove sp s) t STOP_PHRASES = t"
    by (rule foldl_str_remove_fixed [OF assms(5)])
  show ?thesis
    using False
    by (simp add: normalize_bill_title_def normalize_text_def Let_def assms(2) nl assms(3) assms(4)
        marks clean stops)
qed

theorem normalize_idempotent_when_settled_witness:
  "title_canonical = normalize_bill_title plain_unicode title_enumerated \<and>
   nfkc plain_unicode title_canonical = title_canonical \<and>
   RE_PREFIX_NUM_sub plain_unicode title_canonical = title_canonical \<and>
   RE_PARENS_sub title_canonical = title_canonical \<and>
   list_all (\<lambda>sp. str_remove sp title_canonical = title_canonical) STOP_PHRASES \<and>
   normalize_bill_title plain_unicode title_canonical = title_canonical"
proof -
  have h1: "title_canonical = normalize_bill_title plain_unicode title_enumerated" by code_simp
  have h2: "nfkc plain_unicode title_canonical = title_canonical" by (simp add: plain_unicode_def)
  have h3: "RE_PREFIX_NUM_sub plain_unicode title_canonical = title_canonical" by code_simp
  have h4: "RE_PARENS_sub title_canonical = title_canonical" by code_simp
  have h5: "list_all (\<lambda>sp. str_remove sp title_canonical = title_canonical) STOP_PHRASES" by code_simp
  then have h5': "\<forall>sp \<in> set STOP_PHRASES. str_remove sp title_canonical = title_canonical"
    by (simp add: list_all_iff)
  show ?thesis
    using normalize_idempotent_when_settled [OF h1 h2 h3 h4 h5'] h1 h2 h3 h4 h5 by simp
qed


section \<open>C10: keyword extraction\<close>

text \<open>
  C10.  Claimed: \<open>extract_keywords\<close> tokenizes on alphanumeric runs, letters of any
  alphabet plus digits, discards single-character tokens and the stop tokens, and returns
  the \<open>top_k\<close> most frequent remaining tokens in descending frequency, ties broken by
  first occurrence.

  As stated this fails on the token class: the pattern of \<open>extract_keywords_from_bill\<close>
  admits Hangul syllables, \<open>A-Z\<close>, \<open>a-z\<close> and \<open>0-9\<close> only.  A title of two Cyrillic
  words has no keyword, and after a Cyrillic word only the Latin word is kept.
\<close>

theorem keywords_other_alphabet_counterexample:
  "extract_keywords_from_bill plain_unicode
     [0x43F, 0x440, 0x430, 0x432, 0x43E, 0x20, 0x437, 0x430, 0x43A, 0x43E, 0x43D] 6 = [] \<and>
   extract_keywords_from_bill plain_unicode
     ([0x43F, 0x440, 0x430, 0x432, 0x43E, 0x20] @ asc ''tax'') 6 = [asc ''tax'']"
  by code_simp

text \<open>
  C10, amended.  For every title and every \<open>topk\<close>: the tokens are the maximal runs of
  Hangul syllables (\<open>U+AC00\<close> to \<open>U+D7A3\<close>), \<open>A-Z\<close>, \<open>a-z\<close> and \<open>0-9\<close> of the
  NFKC-normalized title, in order (no token when there is no such character; otherwise the
  first maximal run, followed by the tokens of the rest).  Of the tokens longer than one
  character and outside \<open>BILL_STOP_TOKENS\<close>, the result lists distinct ones,
  \<open>min topk n\<close> of the \<open>n\<close> distinct ones (none when \<open>topk\<close> is not positive), in descending
  count with ties broken by first occurrence, and every token left out ranks after every
  token returned.
\<close>

theorem extract_keywords_ranked:
  "let t = normalize_text U title;
       toks = findall_runs is_token_char t;
       kept = filter (\<lambda>tok. \<not> length tok \<le> 1 \<and> tok \<notin> set BILL_STOP_TOKENS) toks;
       res = extract_keywords_from_bill U title topk
   in (\<forall>c. is_token_char c \<longleftrightarrow>
            c \<in> {0xAC00..0xD7A3} \<union> {0x41..0x5A} \<union> {0x61..0x7A} \<union> {0x30..0x39}) \<and>
      ((\<forall>c \<in> set t. \<not> is_token_char c) \<longrightarrow> toks = []) \<and>
      (\<forall>g w r. t = g @ w @ r \<and> (\<forall>c \<in> set g. \<not> is_token_char c) \<and>
           w \<noteq> [] \<and> (\<forall>c \<in> set w. is_token_char c) \<and>
           (r = [] \<or> \<not> is_token_char (hd r)) \<longrightarrow>
           toks = w # findall_runs is_token_char r) \<and>
      distinct res \<and> set res \<subseteq> set kept \<and>
      length res = min (nat topk) (card (set kept)) \<and>
      sorted_wrt (ranks_before kept) res \<and>
      (\<forall>v \<in> set res. \<forall>w \<in> set kept - set res. ranks_before kept v w)"
proof -
  define t where "t = normalize_text U title"
  define toks where "toks = findall_runs is_token_char t"
  define kept where "kept = filter (\<lambda>tok. \<not> length tok \<le> 1 \<and> tok \<notin> set BILL_STOP_TOKENS) toks"
  define res where "res = extract_keywords_from_bill U title topk"
  have res: "res = take (nat topk) (ranked kept)"
    unfolding res_def kept_def toks_def t_def by (rule extract_keywords_ranked_eq)
  have c1: "\<forall>c. is_token_char c \<longleftrightarrow>
            c \<in> {0xAC00..0xD7A3} \<union> {0x41..0x5A} \<union> {0x61..0x7A} \<union> {0x30..0x39}"
    by (simp add: is_token_char_def)
  have c2: "(\<forall>c \<in> set t. \<not> is_token_char c) \<longrightarrow> toks = []"
    unfolding toks_def by (simp add: findall_runs_none)
  have c3: "\<forall>g w r. t = g @ w @ r \<and> (\<forall>c \<in> set g. \<not> is_token_char c) \<and>
           w \<noteq> [] \<and> (\<forall>c \<in> set w. is_token_char c) \<and>
           (r = [] \<or> \<not> is_token_char (hd r)) \<longrightarrow>
           toks = w # findall_runs is_token_char r"
    unfolding toks_def using findall_runs_first [of _ is_token_char] by blast
  have c4: "distinct res" unfolding res by (simp add: ranked_distinct)
  have c5: "set res \<subseteq> set kept"
    unfolding res using set_take_subset [of "nat topk" "ranked kept"] by (simp add: ranked_set)
  have c6: "length res = min (nat topk) (card (set kept))"
    unfolding res by (simp add: ranked_length min.commute)
  have "sorted_wrt (ranks_before kept) (take (nat topk) (ranked kept) @ drop (nat topk) (ranked kept))"
    by (simp add: ranked_sorted)
  then have c7: "sorted_wrt (ranks_before kept) res"
    unfolding res sorted_wrt_append by blast
  have c8: "\<forall>v \<in> set res. \<forall>w \<in> set kept - set res. ranks_before kept v w"
    unfolding res using ranked_take_top by blast
  have "(\<forall>c. is_token_char c \<longleftrightarrow>
            c \<in> {0xAC00..0xD7A3} \<union> {0x41..0x5A} \<union> {0x61..0x7A} \<union> {0x30..0x39}) \<and>
      ((\<forall>c \<in> set t. \<not> is_token_char c) \<longrightarrow> toks = []) \<and>
      (\<forall>g w r. t = g @ w @ r \<and> (\<forall>c \<in> set g. \<not> is_token_char c) \<and>
           w \<noteq> [] \<and> (\<forall>c \<in> set w. is_token_char c) \<and>
           (r = [] \<or> \<not> is_token_char (hd r)) \<longrightarrow>
           toks = w # findall_runs is_token_char r) \<and>
      distinct res \<and> set res \<subseteq> set kept \<and>
      length res = min (nat topk) (card (set kept)) \<and>
      sorted_wrt (ranks_before kept) res \<and>
      (\<forall>v \<in> set res. \<forall>w \<in> set kept - set res. ranks_before kept v w)"
    by (intro conjI c1 c2 c3 c4 c5 c6 c7 c8)
  then show ?thesis
    unfolding Let_def res_def kept_def toks_def t_def .
qed

theorem extract_keywords_ranked_witness:
  "normalize_text plain_unicode (asc ''road tax act tax 7'') = [] @ asc ''road'' @ asc '' tax act tax 7'' \<and>
   findall_runs is_token_char (normalize_text plain_unicode (asc ''road tax act tax 7'')) =
     asc ''road'' # findall_runs is_token_char (asc '' tax act tax 7'') \<and>
   findall_runs is_token_char (normalize_text plain_unicode (asc ''road tax act tax 7'')) =
     [asc ''road'', asc ''tax'', asc ''act'', asc ''tax'', asc ''7''] \<and>
   extract_keywords_from_bill plain_unicode (asc ''road tax act tax 7'') 2 = [asc ''tax'', asc ''road''] \<and>
   sorted_wrt (ranks_before [asc ''road'', asc ''tax'', asc ''act'', asc ''tax''])
     [asc ''tax'', asc ''road''] \<and>
   ranks_before [asc ''road'', asc ''tax'', asc ''act'', asc ''tax''] (asc ''road'') (asc ''act'')"
proof -
  note T = extract_keywords_ranked [of plain_unicode "asc ''road tax act tax 7''" 2, unfolded Let_def]
  have split: "normalize_text plain_unicode (asc ''road tax act tax 7'') =
      [] @ asc ''road'' @ asc '' tax act tax 7''"
    by code_simp
  have p1: "\<forall>c \<in> set ([] :: ustr). \<not> is_token_char c" by simp
  have p2: "asc ''road'' \<noteq> []" by code_simp
  have "list_all is_token_char (asc ''road'')" by code_simp
  then have p3: "\<forall>c \<in> set (asc ''road''). is_token_char c" by (simp only: list_all_iff)
  have p4: "asc '' tax act tax 7'' = [] \<or> \<not> is_token_char (hd (asc '' tax act tax 7''))"
    by code_simp
  have first: "findall_runs is_token_char (normalize_text plain_unicode (asc ''road tax act tax 7'')) =
     asc ''road'' # findall_runs is_token_char (asc '' tax act tax 7'')"
    using T [THEN conjunct2, THEN conjunct2, THEN conjunct1] split p1 p2 p3 p4 by blast
  have toks: "findall_runs is_token_char (normalize_text plain_unicode (asc ''road tax act tax 7'')) =
     [asc ''road'', asc ''tax'', asc ''act'', asc ''tax'', asc ''7'']"
    by code_simp
  have kept: "filter (\<lambda>tok. \<not> length tok \<le> 1 \<and> tok \<notin> set BILL_STOP_TOKENS)
      [asc ''road'', asc ''tax'', asc ''act'', asc ''tax'', asc ''7''] =
      [asc ''road'', asc ''tax'', asc ''act'', asc ''tax'']"
    by code_simp
  have res: "extract_keywords_from_bill plain_unicode (asc ''road tax act tax 7'') 2 =
      [asc ''tax'', asc ''road'']"
    by code_simp
  have srt: "sorted_wrt (ranks_before [asc ''road'', asc ''tax'', asc ''act'', asc ''tax''])
     [asc ''tax'', asc ''road'']"
    using T [THEN conjunct2, THEN conjunct2, THEN conjunct2, THEN conjunct2, THEN conjunct2,
        THEN conjunct2, THEN conjunct1]
    unfolding toks kept res .
  have top_all: "\<forall>v \<in> set [asc ''tax'', asc ''road''].
      \<forall>w \<in> set [asc ''road'', asc ''tax'', asc ''act'', asc ''tax''] - set [asc ''tax'', asc ''road''].
        ranks_before [asc ''road'', asc ''tax'', asc ''act'', asc ''tax''] v w"
    using T [THEN conjunct2, THEN conjunct2, THEN conjunct2, THEN conjunct2, THEN conjunct2,
        THEN conjunct2, THEN conjunct2]
    unfolding toks kept res .
  have m1: "asc ''road'' \<in> set [asc ''tax'', asc ''road'']" by simp
  have m2: "asc ''act'' \<in>
      set [asc ''road'', asc ''tax'', asc ''act'', asc ''tax''] - set [asc ''tax'', asc ''road'']"
    by code_simp
  have top: "ranks_before [asc ''road'', asc ''tax'', asc ''act'', asc ''tax''] (asc ''road'') (asc ''act'')"
    using top_all m1 m2 by blast
  show ?thesis
    by (intro conjI split first toks res srt top)
qed


section \<open>C7: what is done with the reply\<close>

text \<open>
  C7.  Claimed: a reply that is not equal to one of the candidates is accepted only if it
  is part of, or contains, exactly one candidate; in every other case the first candidate
  is taken and this is recorded as a fallback.

  As stated this fails: the loop of \<open>find_most_relevant_bill\<close> returns the first bill
  that is related to the reply and does not look at the others.  The reply \<open>Road Act\<close>
  is part of the second and of the third bill; the second bill is returned, not the
  first, and nothing is logged.
\<close>

theorem reply_in_two_bills_counterexample:
  "strip (asc ''Road Act'') = asc ''Road Act'' \<and>
   three_bills = [asc ''1. Tax Act'', asc ''2. Road Act'', asc ''3. Road Act (amended)''] \<and>
   asc ''Road Act'' \<notin> set three_bills \<and>
   str_in (asc ''Road Act'') (asc ''2. Road Act'') \<and>
   str_in (asc ''Road Act'') (asc ''3. Road Act (amended)'') \<and>
   find_most_relevant_bill (Reply (asc ''Road Act'')) (Val (asc ''about roads'')) three_bills =
     (Some (asc ''2. Road Act''), []) \<and>
   asc ''2. Road Act'' \<noteq> hd three_bills"
  by code_simp

text \<open>
  C7, amended.  When the stripped reply is not equal to one of the candidates (and there
  is a candidate): if some candidate contains the reply or is contained in it, the first
  such candidate in the order of the list is returned and nothing is logged; if no
  candidate is, the first candidate of the list is returned and a warning that names the
  reply is logged.
\<close>

theorem reply_matched_to_first_related_bill:
  assumes "chosen = strip content" and "chosen \<notin> set bill_list" and "bill_list \<noteq> []"
  shows "(\<forall>pre ob post.
            bill_list = pre @ ob # post \<and>
            ((\<exists>p s. ob = p @ chosen @ s) \<or> (\<exists>p s. chosen = p @ ob @ s)) \<and>
            (\<forall>c \<in> set pre. \<not> ((\<exists>p s. c = p @ chosen @ s) \<or> (\<exists>p s. chosen = p @ c @ s))) \<longrightarrow>
            find_most_relevant_bill (Reply content) spoken bill_list = (Some ob, [])) \<and>
         ((\<forall>c \<in> set bill_list. \<not> ((\<exists>p s. c = p @ chosen @ s) \<or> (\<exists>p s. chosen = p @ c @ s))) \<longrightarrow>
            find_most_relevant_bill (Reply content) spoken bill_list =
              (Some (hd bill_list), [Reply_not_listed chosen]) \<and>
            level_of (Reply_not_listed chosen) = WARNING)"
proof (intro conjI allI impI)
  fix pre ob post
  assume h: "bill_list = pre @ ob # post \<and>
            ((\<exists>p s. ob = p @ chosen @ s) \<or> (\<exists>p s. chosen = p @ ob @ s)) \<and>
            (\<forall>c \<in> set pre. \<not> ((\<exists>p s. c = p @ chosen @ s) \<or> (\<exists>p s. chosen = p @ c @ s)))"
  then have a: "bill_list = pre @ ob # post" by blast
  from h have b: "strip content = ob \<or> str_in (strip content) ob \<or> str_in ob (strip content)"
    unfolding str_in_iff assms(1) by blast
  have "\<forall>c \<in> set pre. chosen \<noteq> c" using assms(2) a by auto
  with h have c: "\<forall>c \<in> set pre. \<not> (strip content = c \<or> str_in (strip content) c \<or> str_in c (strip content))"
    unfolding str_in_iff assms(1) by blast
  show "find_most_relevant_bill (Reply content) spoken bill_list = (Some ob, [])"
    by (rule find_most_relevant_bill_first [OF a b c])
next
  assume h: "\<forall>c \<in> set bill_list. \<not> ((\<exists>p s. c = p @ chosen @ s) \<or> (\<exists>p s. chosen = p @ c @ s))"
  have "\<forall>c \<in> set bill_list. chosen \<noteq> c" using assms(2) by auto
  with h have c: "\<forall>c \<in> set bill_list. \<not> (strip content = c \<or> str_in (strip content) c \<or> str_in c (strip content))"
    unfolding str_in_iff assms(1) by blast
  show "find_most_relevant_bill (Reply content) spoken bill_list =
              (Some (hd bill_list), [Reply_not_listed chosen])"
    unfolding assms(1) by (rule find_most_relevant_bill_none [OF c assms(3)])
next
  show "level_of (Reply_not_listed chosen) = WARNING" by simp
qed

theorem reply_matched_to_first_related_bill_witness:
  "asc ''Road Act'' = strip (asc '' Road Act '') \<and>
   asc ''Road Act'' \<notin> set three_bills \<and> three_bills \<noteq> [] \<and>
   three_bills = [asc ''1. Tax Act''] @ asc ''2. Road Act'' # [asc ''3. Road Act (amended)''] \<and>
   asc ''2. Road Act'' = asc ''2. '' @ asc ''Road Act'' @ [] \<and>
   \<not> str_in (asc ''Road Act'') (asc ''1. Tax Act'') \<and>
   \<not> str_in (asc ''1. Tax Act'') (asc ''Road Act'') \<and>
   find_most_relevant_bill (Reply (asc '' Road Act '')) (Val []) three_bills =
     (Some (asc ''2. Road Act''), [])"
proof -
  have h1: "asc ''Road Act'' = strip (asc '' Road Act '')" by code_simp
  have h2: "asc ''Road Act'' \<notin> set three_bills" by code_simp
  have h3: "three_bills \<noteq> []" by code_simp
  have d: "three_bills = [asc ''1. Tax Act''] @ asc ''2. Road Act'' # [asc ''3. Road Act (amended)'']"
    by code_simp
  have e: "asc ''2. Road Act'' = asc ''2. '' @ asc ''Road Act'' @ []" by code_simp
  have n1: "\<not> str_in (asc ''Road Act'') (asc ''1. Tax Act'')" by code_simp
  have n2: "\<not> str_in (asc ''1. Tax Act'') (asc ''Road Act'')" by code_simp
  have rel: "(\<exists>p s. asc ''2. Road Act'' = p @ asc ''Road Act'' @ s) \<or>
      (\<exists>p s. asc ''Road Act'' = p @ asc ''2. Road Act'' @ s)"
    using e by blast
  have pre: "\<forall>c \<in> set [asc ''1. Tax Act''].
      \<not> ((\<exists>p s. c = p @ asc ''Road Act'' @ s) \<or> (\<exists>p s. asc ''Road Act'' = p @ c @ s))"
    using n1 n2 unfolding str_in_iff by simp
  note T = reply_matched_to_first_related_bill [OF h1 h2 h3, of "Val []", THEN conjunct1]
  have r: "find_most_relevant_bill (Reply (asc '' Road Act '')) (Val []) three_bills =
     (Some (asc ''2. Road Act''), [])"
    using T d rel pre by blast
  show ?thesis
    by (intro conjI h1 h2 h3 d e n1 n2 r)
qed


section \<open>C8: a failed call\<close>

text \<open>
  C8.  A failure of the call (of the call itself or of reading its response) is not fatal.
  \<open>find_most_relevant_bill\<close> returns \<open>None\<close>.  For every transcript, either
  \<open>process_speeches\<close> raises the same exception whatever the calls return (a \<open>bills\<close> that
  is \<open>null\<close>, or a record of several bills without \<open>speech_id\<close>), or it returns one record
  for each record read, the record of the failed call is unchanged, and every record of
  the result is what the body of the loop makes of the record at that index and of the
  outcome of its own call.
\<close>

theorem disambiguator_failure_is_not_fatal:
  assumes "i < length speeches" and "llm i = Failure"
  shows "fst (find_most_relevant_bill (llm i) spoken bill_list) = None \<and>
         ((\<exists>e. \<forall>llm'. process_speeches U llm' speeches = Inl e) \<or>
          (\<exists>processed logs.
             process_speeches U llm speeches = Inr (processed, logs) \<and>
             length processed = length speeches \<and>
             processed ! i = speeches ! i \<and>
             (\<forall>j < length speeches. \<exists>lg.
                process_speech U (length speeches) j (llm j) (speeches ! j) = Inr (processed ! j, lg))))"
proof -
  have none: "fst (find_most_relevant_bill (llm i) spoken bill_list) = None"
    by (simp add: assms(2) find_most_relevant_bill_failure)
  show ?thesis
  proof (cases "process_speeches U llm speeches")
    case (Inl e)
    then have "\<forall>llm'. process_speeches U llm' speeches = Inl e"
      using process_speeches_error_independent [of U llm speeches e] by blast
    then show ?thesis using none by blast
  next
    case (Inr res)
    obtain processed logs where res: "res = (processed, logs)" by (cases res)
    from Inr have loop: "process_loop U llm (length speeches) 0 speeches = Inr (processed, logs)"
      by (simp add: process_speeches_def res)
    from process_loop_returned [OF loop] have
      p: "length processed = length speeches"
        "\<forall>j < length speeches. \<exists>lg.
           process_speech U (length speeches) j (llm j) (speeches ! j) = Inr (processed ! j, lg)"
      by simp_all
    from p(2) assms obtain lg where
      "process_speech U (length speeches) i Failure (speeches ! i) = Inr (processed ! i, lg)"
      by metis
    then have "processed ! i = speeches ! i" by (rule process_speech_failure_unchanged)
    with Inr res p none show ?thesis by blast
  qed
qed

theorem disambiguator_failure_is_not_fatal_witness:
  "0 < length [speech_three, speech_three] \<and> llm_example 0 = Failure \<and>
   process_speeches plain_unicode llm_example [speech_three, speech_three] =
     Inr ([speech_three, speech_three \<lparr> bills := Val (asc ''2. Road Act'') \<rparr>],
       [Bills_found 1 2 (Some 7) 3, Names_differ, Api_call_error, Llm_failed (Some 7),
        Bills_found 2 2 (Some 7) 3, Names_differ, Llm_selected (asc ''2. Road Act'')]) \<and>
   (\<exists>processed logs.
      process_speeches plain_unicode llm_example [speech_three, speech_three] = Inr (processed, logs) \<and>
      length processed = 2 \<and> processed ! 0 = speech_three)"
proof -
  have i: "0 < length [speech_three, speech_three]" by simp
  have f: "llm_example 0 = Failure" by (simp add: llm_example_def)
  have v: "process_speeches plain_unicode llm_example [speech_three, speech_three] =
     Inr ([speech_three, speech_three \<lparr> bills := Val (asc ''2. Road Act'') \<rparr>],
       [Bills_found 1 2 (Some 7) 3, Names_differ, Api_call_error, Llm_failed (Some 7),
        Bills_found 2 2 (Some 7) 3, Names_differ, Llm_selected (asc ''2. Road Act'')])"
    by code_simp
  note T = disambiguator_failure_is_not_fatal
    [where speeches = "[speech_three, speech_three]" and i = 0 and llm = llm_example
       and U = plain_unicode and spoken = "Val []" and bill_list = "[]", OF i f, THEN conjunct2]
  have no: "\<not> (\<exists>e. \<forall>llm'. process_speeches plain_unicode llm' [speech_three, speech_three] = Inl e)"
    using v by (metis sum.distinct(1))
  have e: "\<exists>processed logs.
      process_speeches plain_unicode llm_example [speech_three, speech_three] = Inr (processed, logs) \<and>
      length processed = 2 \<and> processed ! 0 = speech_three"
    using T no by auto
  show ?thesis
    by (intro conjI i f v e)
qed

end
